theory Spec2Isabelle
  imports Main "HOL-Library.AList"
begin

section \<open>struct-rx: a reactive state tree\<close>

text \<open>
  A shallow embedding of \<^verbatim>\<open>packages/struct-rx/src/index.tsx\<close>.

  The tree is exclusively owned: every Node is held by exactly one slot of one Branch (or is
  the root), and no Topic is shared between two positions. The embedding therefore stores a
  Node inside the \<open>nodes\<close> list of its Branch, and the back link
  \<^verbatim>\<open>parent = {key, branch}\<close> of a child is the slot that holds it.
  Mutation is explicit state passing: every method returns the updated object together
  with the static set \<^verbatim>\<open>Subscriber.notified\<close>.
\<close>

subsection \<open>Values\<close>

text \<open>
  A Subscriber object is identified by a number. A JavaScript number is either NaN or another
  number; only strict equality of numbers is used by the code, and NaN is the one number
  that is not strictly equal to itself. A function value is a function of the caller (an arrow
  function or a function expression, not a class and not a built-in constructor such as
  \<^verbatim>\<open>Object\<close>); it is identified by its reference.
\<close>

type_synonym subscriber = nat

datatype number = NaN | Num int

datatype atomic = ABool bool | AStr string | ANum number | AFun nat

text \<open>
  The values \<^verbatim>\<open>update\<close> can receive and \<^verbatim>\<open>read\<close> can return. An array is the list
  of its elements. An object that is not an array is given by its prototype and by the list
  of its own enumerable properties, which are data properties with string keys, in the order
  of \<^verbatim>\<open>Object.keys\<close>:

    \<^item> \<open>VObj\<close>: the prototype is \<^verbatim>\<open>Object.prototype\<close>, as for an object literal or a
      result of \<^verbatim>\<open>JSON.parse\<close>;
    \<^item> \<open>VInst\<close>: an instance of a class other than \<^verbatim>\<open>Object\<close> and
      \<^verbatim>\<open>Array\<close> (such as a Date): the prototype is the prototype object of the class,
      whose \<^verbatim>\<open>constructor\<close> is the class;
    \<^item> \<open>VBare\<close>: the prototype is null, as for \<^verbatim>\<open>Object.create(null)\<close>;
    \<^item> \<open>VDerived p\<close>: the prototype is the object \<open>p\<close>, itself an array, a function or an
      object of the model, as for \<^verbatim>\<open>Object.create(p)\<close> or after
      \<^verbatim>\<open>Object.setPrototypeOf(value, p)\<close>.
\<close>

datatype val =
    VUndefined
  | VNull
  | VAtom atomic
  | VArr "val list"
  | VObj "(string \<times> val) list"
  | VInst "(string \<times> val) list"
  | VBare "(string \<times> val) list"
  | VDerived val "(string \<times> val) list"

text \<open>
  What the code throws. \<open>InvalidStateInput v\<close> is the statement
  \<^verbatim>\<open>throw new Error(`Invalid state input: ${value}`)\<close> of \<^verbatim>\<open>validateStateInput\<close>,
  executed for the value \<open>v\<close>: it throws the Error with that message, or what the
  rendering of \<open>v\<close> in the message throws. The text of the message is not part of the
  model. \<open>TypeError\<close> is the error of the language for a property read on null or
  undefined and for an assignment that an object refuses.
\<close>

datatype error = InvalidStateInput val | TypeError

datatype StateKind = KAtomic | KObject | KArray | KUndefined

text \<open>\<^verbatim>\<open>value === undefined || value === null\<close>\<close>

fun is_empty :: "val \<Rightarrow> bool" where
  "is_empty VUndefined = True"
| "is_empty VNull = True"
| "is_empty _ = False"

text \<open>\<^verbatim>\<open>typeof value === "object"\<close>, for a value that is not null.\<close>

fun typeof_object :: "val \<Rightarrow> bool" where
  "typeof_object (VArr _) = True"
| "typeof_object (VObj _) = True"
| "typeof_object (VInst _) = True"
| "typeof_object (VBare _) = True"
| "typeof_object (VDerived _ _) = True"
| "typeof_object _ = False"

text \<open>\<^verbatim>\<open>Array.isArray(value)\<close>\<close>

fun isArray_val :: "val \<Rightarrow> bool" where
  "isArray_val (VArr _) = True"
| "isArray_val _ = False"

text \<open>The decimal rendering of an array index, as \<^verbatim>\<open>Object.keys\<close> of an array gives it.\<close>

definition digit_char :: "nat \<Rightarrow> char" where
  "digit_char d = ''0123456789'' ! d"

fun string_of_nat :: "nat \<Rightarrow> string" where
  "string_of_nat n =
     (if n < 10 then [digit_char n] else string_of_nat (n div 10) @ [digit_char (n mod 10)])"

declare string_of_nat.simps [simp del]

text \<open>
  \<open>entries v\<close> pairs every key of \<^verbatim>\<open>Object.keys(value)\<close> with
  \<^verbatim>\<open>value[k]\<close>.
\<close>

fun entries :: "val \<Rightarrow> (string \<times> val) list" where
  "entries (VArr xs) = zip (map string_of_nat [0..<length xs]) xs"
| "entries (VObj kvs) = kvs"
| "entries (VInst kvs) = kvs"
| "entries (VBare kvs) = kvs"
| "entries (VDerived p kvs) = kvs"
| "entries _ = []"

text \<open>
  The keys of a JavaScript object are pairwise different; a value of the model is well formed
  when its records respect that, at every depth.
\<close>

fun wf_val :: "val \<Rightarrow> bool" where
  "wf_val (VArr xs) = (\<forall>x \<in> set xs. wf_val x)"
| "wf_val (VObj kvs) = (distinct (map fst kvs) \<and> (\<forall>e \<in> set kvs. wf_val (snd e)))"
| "wf_val (VInst kvs) = (distinct (map fst kvs) \<and> (\<forall>e \<in> set kvs. wf_val (snd e)))"
| "wf_val (VBare kvs) = (distinct (map fst kvs) \<and> (\<forall>e \<in> set kvs. wf_val (snd e)))"
| "wf_val (VDerived p kvs) = (distinct (map fst kvs) \<and> (\<forall>e \<in> set kvs. wf_val (snd e)))"
| "wf_val _ = True"

subsection \<open>Topic\<close>

text \<open>
  \<^verbatim>\<open>class Topic<T>\<close>: a value, the set of its subscribers and the optional
  \<^verbatim>\<open>detach\<close> callback. The callback is a closure of the owner; the model records
  whether there is one, every method that can call it reports whether it did, and the owner
  applies the effect.
\<close>

datatype 'a topic = Topic (tvalue: 'a) (subscribers: "subscriber set") (detach: bool)

text \<open>
  \<^verbatim>\<open>tryDetach\<close>: true when \<^verbatim>\<open>this.detach()\<close> is called. The test
  \<^verbatim>\<open>this.value === undefined\<close> is the parameter \<open>undef\<close>.
\<close>

definition Topic_tryDetach :: "('a \<Rightarrow> bool) \<Rightarrow> 'a topic \<Rightarrow> bool" where
  "Topic_tryDetach undef t \<longleftrightarrow> detach t \<and> subscribers t = {} \<and> undef (tvalue t)"

text \<open>
  \<^verbatim>\<open>set(value)\<close>: stores the value, adds every subscriber to
  \<^verbatim>\<open>Subscriber.notified\<close> when \<^verbatim>\<open>prevValue !== this.value\<close>, then tries to
  detach. Strict equality on \<open>'a\<close> is the parameter \<open>seq\<close>.
\<close>

definition Topic_set ::
  "('a \<Rightarrow> 'a \<Rightarrow> bool) \<Rightarrow> ('a \<Rightarrow> bool) \<Rightarrow> 'a topic \<Rightarrow> 'a \<Rightarrow> subscriber set
     \<Rightarrow> 'a topic \<times> subscriber set \<times> bool" where
  "Topic_set seq undef t v N =
     (let t' = Topic v (subscribers t) (detach t);
          N' = (if \<not> seq (tvalue t) v then N \<union> subscribers t else N)
      in (t', N', Topic_tryDetach undef t'))"

definition Topic_subscribe :: "'a topic \<Rightarrow> subscriber \<Rightarrow> 'a topic" where
  "Topic_subscribe t s = Topic (tvalue t) (insert s (subscribers t)) (detach t)"

definition Topic_unsubscribe :: "('a \<Rightarrow> bool) \<Rightarrow> 'a topic \<Rightarrow> subscriber \<Rightarrow> 'a topic \<times> bool" where
  "Topic_unsubscribe undef t s =
     (let t' = Topic (tvalue t) (subscribers t - {s}) (detach t)
      in (t', Topic_tryDetach undef t'))"

subsection \<open>The tree\<close>

text \<open>
  \<^verbatim>\<open>class Branch\<close> has the flag \<open>isArray\<close>, the Topic \<open>keys\<close> of an ordered set of
  strings (a list without repetition, in insertion order) and the Map \<open>nodes\<close> (an
  association list in insertion order). \<^verbatim>\<open>class Node extends Topic<Topic<any> | Branch | undefined>\<close>.
\<close>

datatype 'n branch = Branch (isArray: bool) (keys: "string list topic") (nodes: "(string \<times> 'n) list")

datatype content = CUndefined | CTopic "atomic option topic" | CBranch "content topic branch"

type_synonym node = "content topic"

text \<open>
  Strict equality and the test for undefined, at the three types of Topic of the tree.

  A leaf Topic holds an atomic value or undefined: strict equality is equality, except that
  NaN differs from itself.

  The persistent ordered set of the \<open>keys\<close> Topic returns itself from
  \<^verbatim>\<open>add\<close>, \<^verbatim>\<open>delete\<close> and \<^verbatim>\<open>intersect\<close> when the operation changes
  nothing, and another object otherwise, so the old and the new value are the same object
  exactly when they have the same elements.

  The content of a Node is undefined or an object. Every object the code passes to
  \<^verbatim>\<open>Node.set\<close> is newly constructed, so it differs from the previous content.
\<close>

fun seq_leaf :: "atomic option \<Rightarrow> atomic option \<Rightarrow> bool" where
  "seq_leaf (Some (ANum NaN)) (Some (ANum NaN)) = False"
| "seq_leaf a b = (a = b)"

definition undef_leaf :: "atomic option \<Rightarrow> bool" where
  "undef_leaf a \<longleftrightarrow> a = None"

definition seq_keys :: "string list \<Rightarrow> string list \<Rightarrow> bool" where
  "seq_keys ks ks' \<longleftrightarrow> ks = ks'"

definition undef_keys :: "string list \<Rightarrow> bool" where
  "undef_keys ks \<longleftrightarrow> False"

definition seq_content :: "content \<Rightarrow> content \<Rightarrow> bool" where
  "seq_content c c' \<longleftrightarrow> c = CUndefined \<and> c' = CUndefined"

definition undef_content :: "content \<Rightarrow> bool" where
  "undef_content c \<longleftrightarrow> c = CUndefined"

definition Node_set :: "node \<Rightarrow> content \<Rightarrow> subscriber set \<Rightarrow> node \<times> subscriber set \<times> bool" where
  "Node_set n c N = Topic_set seq_content undef_content n c N"

text \<open>\<^verbatim>\<open>new Branch()\<close> and \<^verbatim>\<open>new Topic(undefined)\<close>\<close>

definition new_Branch :: "node branch" where
  "new_Branch = Branch False (Topic [] {} False) []"

definition new_Topic :: "atomic option topic" where
  "new_Topic = Topic None {} False"

text \<open>\<^verbatim>\<open>new Node(undefined)\<close>, the root of \<^verbatim>\<open>createState\<close>: no detach callback.\<close>

definition new_Node :: node where
  "new_Node = Topic CUndefined {} False"

subsection \<open>Branch\<close>

text \<open>
  \<^verbatim>\<open>createChild(key)\<close>: an empty Node whose detach callback deletes \<open>key\<close> from
  \<open>nodes\<close> of this Branch.
\<close>

definition createChild :: "string \<Rightarrow> node" where
  "createChild key = Topic CUndefined {} True"

definition set_keys :: "node branch \<Rightarrow> string list \<Rightarrow> subscriber set \<Rightarrow> node branch \<times> subscriber set" where
  "set_keys b ks N =
     (case Topic_set seq_keys undef_keys (keys b) ks N of
        (kt, N', _) \<Rightarrow> (Branch (isArray b) kt (nodes b), N'))"

text \<open>\<^verbatim>\<open>getOrCreateNode(key)\<close> returns the Branch, the Node at \<open>key\<close> and the notified set.\<close>

definition Branch_getOrCreateNode ::
  "node branch \<Rightarrow> string \<Rightarrow> subscriber set \<Rightarrow> node branch \<times> node \<times> subscriber set" where
  "Branch_getOrCreateNode b key N =
     (let (ns, c) = (case map_of (nodes b) key of
                       None \<Rightarrow> (AList.update key (createChild key) (nodes b), createChild key)
                     | Some c \<Rightarrow> (nodes b, c));
          b1 = Branch (isArray b) (keys b) ns;
          (b2, N') = (if key \<notin> set (tvalue (keys b1))
                      then set_keys b1 (tvalue (keys b1) @ [key]) N
                      else (b1, N))
      in (b2, c, N'))"

text \<open>\<^verbatim>\<open>createVolatileNode(key)\<close>\<close>

definition Branch_createVolatileNode :: "node branch \<Rightarrow> string \<Rightarrow> node branch \<times> node" where
  "Branch_createVolatileNode b key =
     (Branch (isArray b) (keys b) (AList.update key (createChild key) (nodes b)), createChild key)"

text \<open>
  The Branch after the child at \<open>key\<close> has run a method: the child is stored back, or its
  detach callback has run and the key is deleted from \<open>nodes\<close>.
\<close>

definition put_child :: "node branch \<Rightarrow> string \<Rightarrow> node \<Rightarrow> bool \<Rightarrow> node branch" where
  "put_child b key c fired =
     Branch (isArray b) (keys b)
       (if fired then AList.delete key (nodes b) else AList.update key c (nodes b))"

text \<open>\<^verbatim>\<open>this.nodes.get(key)?.set(undefined)\<close>\<close>

definition clear_child :: "node branch \<Rightarrow> string \<Rightarrow> subscriber set \<Rightarrow> node branch \<times> subscriber set" where
  "clear_child b key N =
     (case map_of (nodes b) key of
        None \<Rightarrow> (b, N)
      | Some c \<Rightarrow> (case Node_set c CUndefined N of (c', N', fired) \<Rightarrow> (put_child b key c' fired, N')))"

text \<open>\<^verbatim>\<open>removeKey(key)\<close>\<close>

definition Branch_removeKey :: "node branch \<Rightarrow> string \<Rightarrow> subscriber set \<Rightarrow> node branch \<times> subscriber set" where
  "Branch_removeKey b key N =
     (case set_keys b (removeAll key (tvalue (keys b))) N of (b1, N1) \<Rightarrow> clear_child b1 key N1)"

subsection \<open>Node\<close>

definition with_content :: "node \<Rightarrow> content \<Rightarrow> node" where
  "with_content n c = Topic c (subscribers n) (detach n)"

text \<open>\<^verbatim>\<open>getOrCreateBranch()\<close> and \<^verbatim>\<open>getOrCreateTopic()\<close>\<close>

definition Node_getOrCreateBranch :: "node \<Rightarrow> subscriber set \<Rightarrow> node \<times> node branch \<times> subscriber set" where
  "Node_getOrCreateBranch n N =
     (case tvalue n of
        CBranch b \<Rightarrow> (n, b, N)
      | _ \<Rightarrow> (case Node_set n (CBranch new_Branch) N of (n', N', _) \<Rightarrow> (n', new_Branch, N')))"

definition Node_getOrCreateTopic ::
  "node \<Rightarrow> subscriber set \<Rightarrow> node \<times> atomic option topic \<times> subscriber set" where
  "Node_getOrCreateTopic n N =
     (case tvalue n of
        CTopic t \<Rightarrow> (n, t, N)
      | _ \<Rightarrow> (case Node_set n (CTopic new_Topic) N of (n', N', _) \<Rightarrow> (n', new_Topic, N')))"

text \<open>
  \<^verbatim>\<open>update\<close> called on the child at \<open>key\<close> of the Branch \<open>b\<close>, whose
  \<^verbatim>\<open>parent\<close> is \<open>{key, b}\<close>: an empty value removes the key from the Branch;
  any other value is the update \<open>upd\<close> of the child itself, which cannot call the child's
  detach callback, since it leaves the child with a content.
\<close>

definition child_update ::
  "(node \<Rightarrow> val \<Rightarrow> subscriber set \<Rightarrow> node \<times> subscriber set)
     \<Rightarrow> node branch \<Rightarrow> string \<Rightarrow> val \<Rightarrow> subscriber set \<Rightarrow> node branch \<times> subscriber set" where
  "child_update upd b key v N =
     (if is_empty v then Branch_removeKey b key N
      else (case map_of (nodes b) key of
              None \<Rightarrow> (b, N)
            | Some c \<Rightarrow> (case upd c v N of (c', N') \<Rightarrow> (put_child b key c' False, N'))))"

text \<open>
  \<^verbatim>\<open>keys.forEach((k) => { n.getOrCreateNode(k.toString()).update(value[k]); })\<close>
\<close>

primrec update_children ::
  "(node \<Rightarrow> val \<Rightarrow> subscriber set \<Rightarrow> node \<times> subscriber set)
     \<Rightarrow> (string \<times> val) list \<Rightarrow> node branch \<times> subscriber set \<Rightarrow> node branch \<times> subscriber set" where
  "update_children upd [] bN = bN"
| "update_children upd (e # es) bN =
     update_children upd es
       (case Branch_getOrCreateNode (fst bN) (fst e) (snd bN) of
          (b', _, N') \<Rightarrow> child_update upd b' (fst e) (snd e) N')"

lemma update_children_cong [fundef_cong]:
  assumes "es = es'" "bN = bN'"
    and "\<And>c e N. e \<in> set es' \<Longrightarrow> upd c (snd e) N = upd' c (snd e) N"
  shows "update_children upd es bN = update_children upd' es' bN'"
  using assms(3) unfolding assms(1,2)
proof (induction es' arbitrary: bN')
  case Nil
  show ?case by simp
next
  case (Cons e es)
  have eq: "child_update upd b k (snd e) N = child_update upd' b k (snd e) N" for b k N
    using Cons.prems [of e] by (simp add: child_update_def split: option.splits)
  show ?case
    using Cons.IH Cons.prems by (simp add: eq)
qed

text \<open>
  \<^verbatim>\<open>n.keys.get().forEach((k) => { if (!keys.has(k)) { n.nodes.get(k)?.set(undefined); } })\<close>
\<close>

primrec clear_dropped ::
  "string list \<Rightarrow> string list \<Rightarrow> node branch \<times> subscriber set \<Rightarrow> node branch \<times> subscriber set" where
  "clear_dropped new_keys [] bN = bN"
| "clear_dropped new_keys (k # ks) bN =
     clear_dropped new_keys ks
       (if k \<notin> set new_keys then clear_child (fst bN) k (snd bN) else bN)"

lemma entries_size: "e \<in> set (entries v) \<Longrightarrow> size (snd e) < size v"
proof (cases v)
  case (VArr xs)
  assume "e \<in> set (entries v)"
  with VArr have "snd e \<in> set xs"
    by (auto dest: set_zip_rightD simp: prod_eq_iff) (metis in_set_zipE prod.collapse)
  then have "size (snd e) \<le> size_list size xs"
    by (rule size_list_estimation') simp
  then show ?thesis
    using VArr by simp
next
  case (VObj kvs)
  assume "e \<in> set (entries v)"
  with VObj have "e \<in> set kvs" by simp
  then have "size_prod (\<lambda>_. 0) size e \<le> size_list (size_prod (\<lambda>_. 0) size) kvs"
    by (simp add: size_list_estimation')
  then show ?thesis
    using VObj by (cases e) simp
next
  case (VInst kvs)
  assume "e \<in> set (entries v)"
  with VInst have "e \<in> set kvs" by simp
  then have "size_prod (\<lambda>_. 0) size e \<le> size_list (size_prod (\<lambda>_. 0) size) kvs"
    by (simp add: size_list_estimation')
  then show ?thesis
    using VInst by (cases e) simp
next
  case (VBare kvs)
  assume "e \<in> set (entries v)"
  with VBare have "e \<in> set kvs" by simp
  then have "size_prod (\<lambda>_. 0) size e \<le> size_list (size_prod (\<lambda>_. 0) size) kvs"
    by (simp add: size_list_estimation')
  then show ?thesis
    using VBare by (cases e) simp
next
  case (VDerived p kvs)
  assume "e \<in> set (entries v)"
  with VDerived have "e \<in> set kvs" by simp
  then have "size_prod (\<lambda>_. 0) size e \<le> size_list (size_prod (\<lambda>_. 0) size) kvs"
    by (simp add: size_list_estimation')
  then show ?thesis
    using VDerived by (cases e) simp
qed simp_all

text \<open>
  \<^verbatim>\<open>Node.update(value)\<close>, on a Node that has no \<^verbatim>\<open>parent\<close> (the root) or for a value
  that is not empty (then the parent is not used). The update of a child that has a parent
  is \<open>child_update\<close>.
\<close>

function Node_update :: "node \<Rightarrow> val \<Rightarrow> subscriber set \<Rightarrow> node \<times> subscriber set" where
  "Node_update n v N =
     (if is_empty v then
        (case Node_set n CUndefined N of (n', N', _) \<Rightarrow> (n', N'))
      else if typeof_object v then
        (case Node_getOrCreateBranch n N of
           (n1, b0, N1) \<Rightarrow>
             (let b1 = Branch (isArray_val v) (keys b0) (nodes b0);
                  new_keys = map fst (entries v);
                  (b2, N2) = clear_dropped new_keys (tvalue (keys b1)) (b1, N1);
                  (b3, N3) = set_keys b2 (filter (\<lambda>k. k \<in> set new_keys) (tvalue (keys b2))) N2;
                  (b4, N4) = update_children Node_update (entries v) (b3, N3)
              in (with_content n1 (CBranch b4), N4)))
      else
        (case Node_getOrCreateTopic n N of
           (n1, t, N1) \<Rightarrow>
             (case Topic_set seq_leaf undef_leaf t (case v of VAtom a \<Rightarrow> Some a | _ \<Rightarrow> None) N1 of
                (t', N2, _) \<Rightarrow> (with_content n1 (CTopic t'), N2))))"
  by pat_completeness auto
termination
  by (relation "measure (\<lambda>(n, v, N). size v)") (auto dest: entries_size)

declare Node_update.simps [simp del]

definition Node_update_child ::
  "node branch \<Rightarrow> string \<Rightarrow> val \<Rightarrow> subscriber set \<Rightarrow> node branch \<times> subscriber set" where
  "Node_update_child = child_update Node_update"

text \<open>
  The results of a \<^verbatim>\<open>forEach\<close> whose body can throw: the first error, or all results.
\<close>

fun collect :: "(error + 'a) list \<Rightarrow> error + 'a list" where
  "collect [] = Inr []"
| "collect (x # xs) =
     (case x of
        Inl e \<Rightarrow> Inl e
      | Inr v \<Rightarrow> (case collect xs of Inl e \<Rightarrow> Inl e | Inr vs \<Rightarrow> Inr (v # vs)))"

definition node_size :: "node \<Rightarrow> nat" where
  "node_size n = size_topic size n"

lemma node_size_child:
  assumes "tvalue n = CBranch b" and "map_of (nodes b) k = Some c"
  shows "node_size c < node_size n"
proof -
  from assms(2) have "(k, c) \<in> set (nodes b)"
    by (rule map_of_SomeD)
  then have "size_prod (\<lambda>_. 0) (size_topic size) (k, c)
      \<le> size_list (size_prod (\<lambda>_. 0) (size_topic size)) (nodes b)"
    by (simp add: size_list_estimation')
  then show ?thesis
    using assms(1) by (cases n; cases b) (simp add: node_size_def)
qed

subsection \<open>Assignment to a property\<close>

text \<open>
  \<^verbatim>\<open>extractValue\<close> builds a record from \<^verbatim>\<open>{}\<close> by the assignments
  \<^verbatim>\<open>result[k] = ...\<close>.

  JavaScript lists the own keys of an object with the array indices first, in ascending
  order, and the other keys after them in the order of their creation. An array index is
  the decimal rendering, without leading zeros, of a number below 4294967295. Two such
  renderings compare as the numbers do: the shorter one is the smaller, and two of the same
  length compare digit by digit.
\<close>

definition digit_value :: "char \<Rightarrow> nat" where
  "digit_value c = length (takeWhile (\<lambda>d. d \<noteq> c) ''0123456789'')"

fun digits_less :: "string \<Rightarrow> string \<Rightarrow> bool" where
  "digits_less (c # cs) (d # ds) = (digit_value c < digit_value d \<or> (c = d \<and> digits_less cs ds))"
| "digits_less _ _ = False"

definition number_less :: "string \<Rightarrow> string \<Rightarrow> bool" where
  "number_less k k' \<longleftrightarrow> length k < length k' \<or> (length k = length k' \<and> digits_less k k')"

definition is_array_index :: "string \<Rightarrow> bool" where
  "is_array_index k \<longleftrightarrow>
     k \<noteq> [] \<and> list_all (\<lambda>c. c \<in> set ''0123456789'') k \<and> (k = ''0'' \<or> hd k \<noteq> CHR ''0'') \<and>
     number_less k ''4294967295''"

text \<open>Whether the new key \<open>k\<close> is listed before the key \<open>k'\<close> that the object already has.\<close>

definition listed_before :: "string \<Rightarrow> string \<Rightarrow> bool" where
  "listed_before k k' \<longleftrightarrow> is_array_index k \<and> (if is_array_index k' then number_less k k' else True)"

fun place :: "string \<Rightarrow> val \<Rightarrow> (string \<times> val) list \<Rightarrow> (string \<times> val) list" where
  "place k x [] = [(k, x)]"
| "place k x (e # es) = (if listed_before k (fst e) then (k, x) # e # es else e # place k x es)"

text \<open>The own properties after the property \<open>k\<close> has received the value \<open>x\<close>.\<close>

definition define_property :: "(string \<times> val) list \<Rightarrow> string \<Rightarrow> val \<Rightarrow> (string \<times> val) list" where
  "define_property kvs k x = (if k \<in> fst ` set kvs then AList.update k x kvs else place k x kvs)"

text \<open>
  An assignment looks the key up along the prototypes of the object. The prototypes that
  occur here are values read from the tree: arrays, functions and records built by
  \<^verbatim>\<open>extractValue\<close>, all of which inherit from \<^verbatim>\<open>Object.prototype\<close>. Their properties
  can be assigned through an heir, except four of a function: \<^verbatim>\<open>name\<close> and
  \<^verbatim>\<open>length\<close> are read-only, and the setters of \<^verbatim>\<open>caller\<close> and \<^verbatim>\<open>arguments\<close>
  throw. The module is strict code, where an assignment to a read-only property throws a
  TypeError.
\<close>

fun refuses :: "val \<Rightarrow> string \<Rightarrow> bool" where
  "refuses (VAtom (AFun f)) k = (k \<in> {''name'', ''length'', ''caller'', ''arguments''})"
| "refuses (VDerived p kvs) k = (k \<notin> fst ` set kvs \<and> refuses p k)"
| "refuses _ k = False"

text \<open>
  \<^verbatim>\<open>typeof x === "object" || typeof x === "function"\<close>, for a value that is not null: the
  values that can be a prototype.
\<close>

fun is_object :: "val \<Rightarrow> bool" where
  "is_object (VAtom (AFun f)) = True"
| "is_object x = typeof_object x"

text \<open>The object \<open>obj\<close> with the prototype \<open>p\<close>, and with the own properties \<open>kvs\<close>.\<close>

fun with_prototype :: "val \<Rightarrow> val \<Rightarrow> val" where
  "with_prototype obj VNull = VBare (entries obj)"
| "with_prototype obj p = VDerived p (entries obj)"

fun with_properties :: "val \<Rightarrow> (string \<times> val) list \<Rightarrow> val" where
  "with_properties (VDerived p _) kvs = VDerived p kvs"
| "with_properties (VBare _) kvs = VBare kvs"
| "with_properties (VInst _) kvs = VInst kvs"
| "with_properties _ kvs = VObj kvs"

text \<open>
  Whether a look-up of \<^verbatim>\<open>__proto__\<close> from the object finds the accessor of
  \<^verbatim>\<open>Object.prototype\<close>: no object on the way has a property of that name.
\<close>

fun finds_accessor :: "val \<Rightarrow> bool" where
  "finds_accessor (VObj kvs) = (''__proto__'' \<notin> fst ` set kvs)"
| "finds_accessor (VInst kvs) = (''__proto__'' \<notin> fst ` set kvs)"
| "finds_accessor (VDerived p kvs) = (''__proto__'' \<notin> fst ` set kvs \<and> finds_accessor p)"
| "finds_accessor (VArr xs) = True"
| "finds_accessor (VAtom (AFun f)) = True"
| "finds_accessor _ = False"

text \<open>
  \<^verbatim>\<open>obj[k] = x\<close>, for a record \<open>obj\<close>. The setter of \<^verbatim>\<open>__proto__\<close> makes \<open>x\<close> the
  prototype of \<open>obj\<close> when \<open>x\<close> is an object, a function or null, does nothing for any
  other \<open>x\<close>, and never creates a property.
\<close>

definition js_assign :: "val \<Rightarrow> string \<Rightarrow> val \<Rightarrow> error + val" where
  "js_assign obj k x =
     (if k = ''__proto__'' \<and> finds_accessor obj
      then Inr (if is_object x \<or> x = VNull then with_prototype obj x else obj)
      else if k \<notin> fst ` set (entries obj) \<and> (case obj of VDerived p _ \<Rightarrow> refuses p k | _ \<Rightarrow> False)
      then Inl TypeError
      else Inr (with_properties obj (define_property (entries obj) k x)))"

text \<open>
  \<^verbatim>\<open>keys.forEach((k) => { result[k] = get(k); })\<close>, where reading \<open>get(k)\<close> can throw.
\<close>

primrec assign_all :: "(string \<Rightarrow> error + val) \<Rightarrow> string list \<Rightarrow> val \<Rightarrow> error + val" where
  "assign_all get [] obj = Inr obj"
| "assign_all get (k # ks) obj =
     (case get k of
        Inl e \<Rightarrow> Inl e
      | Inr x \<Rightarrow> (case js_assign obj k x of Inl e \<Rightarrow> Inl e | Inr obj' \<Rightarrow> assign_all get ks obj'))"

lemma assign_all_cong [fundef_cong]:
  assumes "ks = ks'" "obj = obj'" and "\<And>k. k \<in> set ks' \<Longrightarrow> get k = get' k"
  shows "assign_all get ks obj = assign_all get' ks' obj'"
  using assms(3) unfolding assms(1,2)
  by (induction ks' arbitrary: obj') (simp_all split: sum.splits)

subsection \<open>Reading the tree\<close>

text \<open>
  \<^verbatim>\<open>extractValue()\<close>. Where \<^verbatim>\<open>x.nodes.get(k)\<close> is undefined, the call of
  \<^verbatim>\<open>extractValue\<close> on it throws a TypeError. An array is filled with
  \<^verbatim>\<open>push\<close>, a record by assignment.
\<close>

function extractValue :: "node \<Rightarrow> error + val" where
  "extractValue n =
     (case tvalue n of
        CUndefined \<Rightarrow> Inr VUndefined
      | CTopic t \<Rightarrow> Inr (case tvalue t of None \<Rightarrow> VUndefined | Some a \<Rightarrow> VAtom a)
      | CBranch b \<Rightarrow>
          (if isArray b then
             (case collect (map (\<lambda>k. case map_of (nodes b) k of
                                       None \<Rightarrow> Inl TypeError
                                     | Some c \<Rightarrow> extractValue c) (tvalue (keys b))) of
                Inl e \<Rightarrow> Inl e
              | Inr vs \<Rightarrow> Inr (VArr vs))
           else
             assign_all (\<lambda>k. case map_of (nodes b) k of
                                None \<Rightarrow> Inl TypeError
                              | Some c \<Rightarrow> extractValue c) (tvalue (keys b)) (VObj [])))"
  by pat_completeness auto
termination
  by (relation "measure node_size") (auto intro: node_size_child)

declare extractValue.simps [simp del]

text \<open>\<^verbatim>\<open>getNode(keys)\<close>: read-only navigation.\<close>

fun Node_getNode :: "node \<Rightarrow> string list \<Rightarrow> node option" where
  "Node_getNode n [] = Some n"
| "Node_getNode n (k # ks) =
     (case tvalue n of
        CBranch b \<Rightarrow> (case map_of (nodes b) k of None \<Rightarrow> None | Some next \<Rightarrow> Node_getNode next ks)
      | _ \<Rightarrow> None)"

text \<open>
  \<^verbatim>\<open>getOrCreateNode(keys)\<close>: the walk that creates Branches and Nodes. It returns the
  updated tree; the Node it returns in the source is the one at \<open>keys\<close>.
\<close>

fun Node_getOrCreateNode :: "node \<Rightarrow> string list \<Rightarrow> subscriber set \<Rightarrow> node \<times> subscriber set" where
  "Node_getOrCreateNode n [] N = (n, N)"
| "Node_getOrCreateNode n (k # ks) N =
     (case Node_getOrCreateBranch n N of
        (n1, b, N1) \<Rightarrow>
          (case Branch_getOrCreateNode b k N1 of
             (b1, c, N2) \<Rightarrow>
               (case Node_getOrCreateNode c ks N2 of
                  (c', N3) \<Rightarrow> (with_content n1 (CBranch (put_child b1 k c' False)), N3))))"

text \<open>A method of the Branch held by a Node, run in place.\<close>

definition on_branch ::
  "(node branch \<Rightarrow> subscriber set \<Rightarrow> node branch \<times> subscriber set)
     \<Rightarrow> node \<Rightarrow> subscriber set \<Rightarrow> node \<times> subscriber set" where
  "on_branch f n N =
     (case tvalue n of
        CBranch b \<Rightarrow> (case f b N of (b', N') \<Rightarrow> (with_content n (CBranch b'), N'))
      | _ \<Rightarrow> (n, N))"

text \<open>A method run on the Node that \<^verbatim>\<open>getNode(keys)\<close> finds, when there is one.\<close>

fun at_path ::
  "(node \<Rightarrow> subscriber set \<Rightarrow> node \<times> subscriber set)
     \<Rightarrow> string list \<Rightarrow> node \<Rightarrow> subscriber set \<Rightarrow> node \<times> subscriber set" where
  "at_path f [] n N = f n N"
| "at_path f (k # ks) n N =
     (case tvalue n of
        CBranch b \<Rightarrow>
          (case map_of (nodes b) k of
             None \<Rightarrow> (n, N)
           | Some c \<Rightarrow>
               (case at_path f ks c N of
                  (c', N') \<Rightarrow> (with_content n (CBranch (put_child b k c' False)), N')))
      | _ \<Rightarrow> (n, N))"

text \<open>
  \<^verbatim>\<open>update(value)\<close> on the Node at \<open>keys\<close>: the root has no parent; the parent of
  any other Node is the Branch of the Node one key above.
\<close>

fun Node_update_at :: "node \<Rightarrow> string list \<Rightarrow> val \<Rightarrow> subscriber set \<Rightarrow> node \<times> subscriber set" where
  "Node_update_at n [] v N = Node_update n v N"
| "Node_update_at n [k] v N = on_branch (\<lambda>b. Node_update_child b k v) n N"
| "Node_update_at n (k # ks) v N = at_path (\<lambda>c. Node_update_at c ks v) [k] n N"

subsection \<open>The operations of a State\<close>

text \<open>\<^verbatim>\<open>isAtomicValue\<close>, \<^verbatim>\<open>validateStateInput\<close> and \<^verbatim>\<open>getStateKind\<close>\<close>

fun isAtomicValue :: "val \<Rightarrow> bool" where
  "isAtomicValue (VAtom _) = True"
| "isAtomicValue _ = False"

text \<open>
  \<^verbatim>\<open>x.constructor === Object\<close> for an object \<open>x\<close> that serves as a prototype. The look-up
  takes the own property \<^verbatim>\<open>constructor\<close> of \<open>x\<close> if there is one, which is then a value
  of the model and not the function \<^verbatim>\<open>Object\<close>, and continues with the prototype of
  \<open>x\<close> otherwise: \<^verbatim>\<open>Object.prototype\<close> answers \<^verbatim>\<open>Object\<close>, the prototype of a class
  answers the class, those of the arrays and of the functions answer \<^verbatim>\<open>Array\<close> and
  \<^verbatim>\<open>Function\<close>, and null ends the look-up with undefined.
\<close>

fun inherits_Object :: "val \<Rightarrow> bool" where
  "inherits_Object (VObj kvs) = (''constructor'' \<notin> fst ` set kvs)"
| "inherits_Object (VDerived p kvs) = (''constructor'' \<notin> fst ` set kvs \<and> inherits_Object p)"
| "inherits_Object _ = False"

text \<open>
  \<^verbatim>\<open>Object.getPrototypeOf(value).constructor === Object\<close>, for an object that is not an
  array. Reading \<^verbatim>\<open>constructor\<close> of the prototype null throws a TypeError.
\<close>

fun constructor_is_Object :: "val \<Rightarrow> error + bool" where
  "constructor_is_Object (VObj kvs) = Inr True"
| "constructor_is_Object (VBare kvs) = Inl TypeError"
| "constructor_is_Object (VDerived p kvs) = Inr (inherits_Object p)"
| "constructor_is_Object _ = Inr False"

function validateStateInput :: "val \<Rightarrow> error + unit" where
  "validateStateInput v =
     (if is_empty v then Inr ()
      else if isAtomicValue v then Inr ()
      else if isArray_val v then
        (case collect (map (\<lambda>e. validateStateInput (snd e)) (entries v)) of
           Inl e \<Rightarrow> Inl e
         | Inr _ \<Rightarrow> Inr ())
      else
        (case constructor_is_Object v of
           Inl e \<Rightarrow> Inl e
         | Inr plain \<Rightarrow>
             if plain then
               (case collect (map (\<lambda>e. validateStateInput (snd e)) (entries v)) of
                  Inl e \<Rightarrow> Inl e
                | Inr _ \<Rightarrow> Inr ())
             else Inl (InvalidStateInput v)))"
  by pat_completeness auto
termination
  by (relation "measure size") (auto dest: entries_size)

declare validateStateInput.simps [simp del]

fun getStateKind :: "content \<Rightarrow> StateKind" where
  "getStateKind (CTopic _) = KAtomic"
| "getStateKind (CBranch b) = (if isArray b then KArray else KObject)"
| "getStateKind CUndefined = KUndefined"

text \<open>\<^verbatim>\<open>this.root.getNode(this.keys)?.get()\<close>\<close>

definition content_at :: "node \<Rightarrow> string list \<Rightarrow> content" where
  "content_at root ks = (case Node_getNode root ks of None \<Rightarrow> CUndefined | Some n \<Rightarrow> tvalue n)"

definition State_read :: "node \<Rightarrow> string list \<Rightarrow> error + val" where
  "State_read root ks = (case Node_getNode root ks of None \<Rightarrow> Inr VUndefined | Some n \<Rightarrow> extractValue n)"

definition State_readKind :: "node \<Rightarrow> string list \<Rightarrow> StateKind" where
  "State_readKind root ks = getStateKind (content_at root ks)"

definition State_readKeys :: "node \<Rightarrow> string list \<Rightarrow> string list" where
  "State_readKeys root ks = (case content_at root ks of CBranch b \<Rightarrow> tvalue (keys b) | _ \<Rightarrow> [])"

definition State_readSize :: "node \<Rightarrow> string list \<Rightarrow> nat" where
  "State_readSize root ks = (case content_at root ks of CBranch b \<Rightarrow> length (tvalue (keys b)) | _ \<Rightarrow> 0)"

text \<open>
  \<^verbatim>\<open>Subscriber.flush()\<close> takes the notified set, leaves an empty one and calls the
  reaction of every member that is still subscribed. A mutating operation of a State returns
  what it threw, if anything, the tree, and the notified set it hands to the flush.
\<close>

definition State_update ::
  "node \<Rightarrow> string list \<Rightarrow> val \<Rightarrow> subscriber set \<Rightarrow> error option \<times> node \<times> subscriber set" where
  "State_update root ks v N =
     (case validateStateInput v of
        Inl e \<Rightarrow> (Some e, root, N)
      | Inr _ \<Rightarrow>
          (case Node_getOrCreateNode root ks N of
             (root1, N1) \<Rightarrow>
               (case Node_update_at root1 ks v N1 of (root2, N2) \<Rightarrow> (None, root2, N2))))"

definition State_removeKey ::
  "node \<Rightarrow> string list \<Rightarrow> string \<Rightarrow> subscriber set \<Rightarrow> node \<times> subscriber set" where
  "State_removeKey root ks key N = at_path (on_branch (\<lambda>b. Branch_removeKey b key)) ks root N"

text \<open>\<^verbatim>\<open>createState(value)\<close>\<close>

definition createState :: "val \<Rightarrow> error option \<times> node \<times> subscriber set" where
  "createState v = State_update new_Node [] v {}"

subsection \<open>Tracked reads\<close>

text \<open>
  A Topic of the tree is referred to by its position, relative to a Node: the Node at a path
  below it, the leaf Topic which the Node at that path holds, or the \<open>keys\<close> Topic of the
  Branch which the Node at that path holds.
\<close>

datatype topic_kind = TNode | TLeaf | TKeys

type_synonym topic_ref = "topic_kind \<times> string list"

text \<open>The position, seen from the parent, of a Topic below the child at \<open>k\<close>.\<close>

definition shift :: "string \<Rightarrow> topic_ref \<Rightarrow> topic_ref" where
  "shift k r = (fst r, k # snd r)"

text \<open>
  \<^verbatim>\<open>getNodeAndTopics(keys)\<close> returns the tree (the walk stores a volatile Node where a key
  has none), whether it found a Node at \<open>keys\<close>, and the Nodes it visited.
\<close>

fun Node_getNodeAndTopics :: "node \<Rightarrow> string list \<Rightarrow> node \<times> bool \<times> topic_ref list" where
  "Node_getNodeAndTopics n [] = (n, True, [(TNode, [])])"
| "Node_getNodeAndTopics n (k # ks) =
     (case tvalue n of
        CBranch b \<Rightarrow>
          (case (case map_of (nodes b) k of
                   Some c \<Rightarrow> (b, c)
                 | None \<Rightarrow> Branch_createVolatileNode b k) of
             (b1, c) \<Rightarrow>
               (case Node_getNodeAndTopics c ks of
                  (c', found, ts) \<Rightarrow>
                    (with_content n (CBranch (put_child b1 k c' False)), found,
                     (TNode, []) # map (shift k) ts)))
      | _ \<Rightarrow> (n, False, [(TNode, [])]))"

lemma node_size_member:
  assumes "tvalue n = CBranch b" and "p \<in> set (nodes b)"
  shows "node_size (snd p) < node_size n"
proof -
  from assms(2) have "size_prod (\<lambda>_. 0) (size_topic size) p
      \<le> size_list (size_prod (\<lambda>_. 0) (size_topic size)) (nodes b)"
    by (simp add: size_list_estimation')
  then show ?thesis
    using assms(1) by (cases n; cases b; cases p) (simp add: node_size_def)
qed

text \<open>\<^verbatim>\<open>collectTopicsInto(topics)\<close>: the Topics it pushes.\<close>

function collectTopics :: "node \<Rightarrow> topic_ref list" where
  "collectTopics n =
     (case tvalue n of
        CUndefined \<Rightarrow> []
      | CTopic t \<Rightarrow> [(TLeaf, [])]
      | CBranch b \<Rightarrow>
          (TKeys, []) #
            concat (map (\<lambda>e. (TNode, [fst e]) # map (shift (fst e)) (collectTopics (snd e))) (nodes b)))"
  by pat_completeness auto
termination
  by (relation "measure node_size") (auto intro: node_size_member)

declare collectTopics.simps [simp del]

text \<open>
  The producers of \<^verbatim>\<open>use()\<close> and \<^verbatim>\<open>useSize()\<close>: the tree, the value and the Topics.
\<close>

fun at_ref :: "string list \<Rightarrow> topic_ref \<Rightarrow> topic_ref" where
  "at_ref ks r = (fst r, ks @ snd r)"

definition State_use :: "node \<Rightarrow> string list \<Rightarrow> node \<times> (error + val) \<times> topic_ref list" where
  "State_use root ks =
     (case Node_getNodeAndTopics root ks of
        (root', found, ts) \<Rightarrow>
          (case (if found then Node_getNode root' ks else None) of
             Some n \<Rightarrow> (root', extractValue n, ts @ map (at_ref ks) (collectTopics n))
           | None \<Rightarrow> (root', Inr VUndefined, ts)))"






subsection \<open>Predicates on values\<close>











text \<open>No element of an array and no property of a record, at any depth, is null or undefined.\<close>

fun no_empty_entries :: "val \<Rightarrow> bool" where
  "no_empty_entries (VArr xs) = (\<forall>x \<in> set xs. \<not> is_empty x \<and> no_empty_entries x)"
| "no_empty_entries (VObj kvs) = (\<forall>e \<in> set kvs. \<not> is_empty (snd e) \<and> no_empty_entries (snd e))"
| "no_empty_entries (VInst kvs) = (\<forall>e \<in> set kvs. \<not> is_empty (snd e) \<and> no_empty_entries (snd e))"
| "no_empty_entries (VBare kvs) = (\<forall>e \<in> set kvs. \<not> is_empty (snd e) \<and> no_empty_entries (snd e))"
| "no_empty_entries (VDerived p kvs) = (\<forall>e \<in> set kvs. \<not> is_empty (snd e) \<and> no_empty_entries (snd e))"
| "no_empty_entries _ = True"

text \<open>The number NaN occurs nowhere in the value.\<close>

fun no_NaN :: "val \<Rightarrow> bool" where
  "no_NaN (VAtom a) = (a \<noteq> ANum NaN)"
| "no_NaN (VArr xs) = (\<forall>x \<in> set xs. no_NaN x)"
| "no_NaN (VObj kvs) = (\<forall>e \<in> set kvs. no_NaN (snd e))"
| "no_NaN (VInst kvs) = (\<forall>e \<in> set kvs. no_NaN (snd e))"
| "no_NaN (VBare kvs) = (\<forall>e \<in> set kvs. no_NaN (snd e))"
| "no_NaN (VDerived p kvs) = (\<forall>e \<in> set kvs. no_NaN (snd e))"
| "no_NaN _ = True"

subsection \<open>Parts of a Branch and of the update\<close>

text \<open>
  The Branch with another value of \<open>keys\<close>, another \<open>nodes\<close> or another flag; the Node
  found or created at a key; a Node after \<^verbatim>\<open>set(undefined)\<close>.
\<close>

definition with_keys :: "node branch \<Rightarrow> string list \<Rightarrow> node branch" where
  "with_keys b ks = Branch (isArray b) (Topic ks (subscribers (keys b)) (detach (keys b))) (nodes b)"

definition with_nodes :: "node branch \<Rightarrow> (string \<times> node) list \<Rightarrow> node branch" where
  "with_nodes b ns = Branch (isArray b) (keys b) ns"

definition with_isArray :: "node branch \<Rightarrow> bool \<Rightarrow> node branch" where
  "with_isArray b a = Branch a (keys b) (nodes b)"

definition slot :: "node branch \<Rightarrow> string \<Rightarrow> node" where
  "slot b k = (case map_of (nodes b) k of None \<Rightarrow> createChild k | Some c \<Rightarrow> c)"

definition cleared :: "node \<Rightarrow> node" where
  "cleared c = Topic CUndefined (subscribers c) (detach c)"

text \<open>One round of the loop of \<open>update_children\<close>.\<close>

definition child_step ::
  "(node \<Rightarrow> val \<Rightarrow> subscriber set \<Rightarrow> node \<times> subscriber set)
     \<Rightarrow> string \<times> val \<Rightarrow> node branch \<times> subscriber set \<Rightarrow> node branch \<times> subscriber set" where
  "child_step upd e bN =
     (case Branch_getOrCreateNode (fst bN) (fst e) (snd bN) of
        (b', _, N') \<Rightarrow> child_update upd b' (fst e) (snd e) N')"

text \<open>
  The first half of a structural update: the dropped children are cleared and \<open>keys\<close> is
  set to its intersection with the new keys.
\<close>

definition prune :: "string list \<Rightarrow> node branch \<times> subscriber set \<Rightarrow> node branch \<times> subscriber set" where
  "prune new_keys bN =
     (case clear_dropped new_keys (tvalue (keys (fst bN))) bN of
        (b2, N2) \<Rightarrow> set_keys b2 (filter (\<lambda>k. k \<in> set new_keys) (tvalue (keys b2))) N2)"

subsection \<open>A Node that stores a value\<close>

text \<open>
  \<open>stores n v\<close>: the subtree at \<open>n\<close> holds \<open>v\<close> key by key. An empty value is an empty
  Node, an atomic value is a leaf Topic with that value, and a structural value is a Branch
  with the same flag, the keys of the value (in any order) and, at every key, a child that
  stores the value at that key. This is the state an update with \<open>v\<close> leaves behind.
\<close>

function stores :: "node \<Rightarrow> val \<Rightarrow> bool" where
  "stores n v =
     (if is_empty v then tvalue n = CUndefined
      else if typeof_object v then
        (case tvalue n of
           CBranch b \<Rightarrow>
             isArray b = isArray_val v \<and> set (tvalue (keys b)) = fst ` set (entries v) \<and>
             (\<forall>e \<in> set (entries v).
                case map_of (nodes b) (fst e) of None \<Rightarrow> False | Some c \<Rightarrow> stores c (snd e))
         | _ \<Rightarrow> False)
      else
        (case tvalue n of
           CTopic t \<Rightarrow> (case v of VAtom a \<Rightarrow> tvalue t = Some a | _ \<Rightarrow> False)
         | _ \<Rightarrow> False))"
  by pat_completeness auto
termination
  by (relation "measure (\<lambda>(n, v). size v)") (auto dest: entries_size)

declare stores.simps [simp del]

subsection \<open>Example trees\<close>

text \<open>The tree of \<^verbatim>\<open>createState({a: 1, b: 2})\<close>.\<close>

definition tree_ab :: node where
  "tree_ab =
     Topic (CBranch (Branch False (Topic [''a'', ''b''] {} False)
       [(''a'', Topic (CTopic (Topic (Some (ANum (Num 1))) {} False)) {} True),
        (''b'', Topic (CTopic (Topic (Some (ANum (Num 2))) {} False)) {} True)])) {} False"

subsection \<open>A Topic under a sequence of calls\<close>

text \<open>
  The calls a Topic can receive, the call itself (with whether it called \<^verbatim>\<open>detach\<close>),
  the Topic after a sequence of calls and the number of times the sequence called
  \<^verbatim>\<open>detach\<close>.
\<close>

datatype 'a topic_op = Set 'a | Subscribe subscriber | Unsubscribe subscriber

fun Topic_apply ::
  "('a \<Rightarrow> 'a \<Rightarrow> bool) \<Rightarrow> ('a \<Rightarrow> bool) \<Rightarrow> 'a topic_op \<Rightarrow> 'a topic \<Rightarrow> 'a topic \<times> bool" where
  "Topic_apply seq undef (Set v) t = (case Topic_set seq undef t v {} of (t', _, fired) \<Rightarrow> (t', fired))"
| "Topic_apply seq undef (Subscribe s) t = (Topic_subscribe t s, False)"
| "Topic_apply seq undef (Unsubscribe s) t = Topic_unsubscribe undef t s"

fun Topic_after :: "('a \<Rightarrow> 'a \<Rightarrow> bool) \<Rightarrow> ('a \<Rightarrow> bool) \<Rightarrow> 'a topic \<Rightarrow> 'a topic_op list \<Rightarrow> 'a topic" where
  "Topic_after seq undef t [] = t"
| "Topic_after seq undef t (op # ops) = Topic_after seq undef (fst (Topic_apply seq undef op t)) ops"



subsection \<open>Slots and walks\<close>

text \<open>
  What \<^verbatim>\<open>this.nodes.get(k)\<close> is after \<^verbatim>\<open>this.nodes.get(k)?.set(undefined)\<close>: the
  cleared child, or nothing when the child detached or there was none.
\<close>

definition cleared_slot :: "node branch \<Rightarrow> string \<Rightarrow> node option" where
  "cleared_slot b k =
     (case map_of (nodes b) k of
        None \<Rightarrow> None
      | Some c \<Rightarrow> if detach c \<and> subscribers c = {} then None else Some (cleared c))"

text \<open>
  \<^verbatim>\<open>this.root.getOrCreateNode(this.keys).update(value)\<close>, the body of the operation
  \<^verbatim>\<open>update\<close> of a State after the validation.
\<close>

definition update_walk :: "node \<Rightarrow> string list \<Rightarrow> val \<Rightarrow> subscriber set \<Rightarrow> node \<times> subscriber set" where
  "update_walk n ks v N =
     (case Node_getOrCreateNode n ks N of (n1, N1) \<Rightarrow> Node_update_at n1 ks v N1)"


subsection \<open>The subscribers of a subtree\<close>

text \<open>
  All subscribers of the Topics of a subtree, and those of the children of a Branch whose
  key is not in \<open>K\<close>.
\<close>

function all_subs :: "node \<Rightarrow> subscriber set" where
  "all_subs n =
     subscribers n \<union>
       (case tvalue n of
          CUndefined \<Rightarrow> {}
        | CTopic t \<Rightarrow> subscribers t
        | CBranch b \<Rightarrow> subscribers (keys b) \<union> (\<Union>p \<in> set (nodes b). all_subs (snd p)))"
  by pat_completeness auto

termination
  by (relation "measure node_size") (auto intro: node_size_member)

declare all_subs.simps [simp del]

definition children_subs :: "string set \<Rightarrow> node branch \<Rightarrow> subscriber set" where
  "children_subs K b = (\<Union>p \<in> {p \<in> set (nodes b). fst p \<notin> K}. all_subs (snd p))"

text \<open>
  The subscribers of the child Nodes themselves, for the children of a Branch whose key is
  not in \<open>K\<close>.
\<close>

definition node_subs :: "string set \<Rightarrow> node branch \<Rightarrow> subscriber set" where
  "node_subs K b = (\<Union>p \<in> {p \<in> set (nodes b). fst p \<notin> K}. subscribers (snd p))"


text \<open>
  The tree of \<^verbatim>\<open>createState({a: {x: 1, y: y}, b: 3})\<close> with given subscribers on its
  ten Topics, and that value.
\<close>

definition tree_axyb_subs ::
  "subscriber set \<Rightarrow> subscriber set \<Rightarrow> subscriber set \<Rightarrow> subscriber set \<Rightarrow> subscriber set \<Rightarrow>
   subscriber set \<Rightarrow> subscriber set \<Rightarrow> subscriber set \<Rightarrow> subscriber set \<Rightarrow> subscriber set \<Rightarrow> atomic \<Rightarrow> node" where
  "tree_axyb_subs R RK A AK X XL Y YL B BL y =
     Topic (CBranch (Branch False (Topic [''a'', ''b''] RK False)
       [(''a'', Topic (CBranch (Branch False (Topic [''x'', ''y''] AK False)
           [(''x'', Topic (CTopic (Topic (Some (ANum (Num 1))) XL False)) X True),
            (''y'', Topic (CTopic (Topic (Some y) YL False)) Y True)])) A True),
        (''b'', Topic (CTopic (Topic (Some (ANum (Num 3))) BL False)) B True)])) R False"

definition value_axyb :: "atomic \<Rightarrow> val" where
  "value_axyb y = VObj [(''a'', VObj [(''x'', VAtom (ANum (Num 1))), (''y'', VAtom y)]), (''b'', VAtom (ANum (Num 3)))]"

subsection \<open>Paths\<close>




section \<open>Properties\<close>

subsection \<open>Induction on values\<close>

lemma val_entries_induct [case_names step]:
  assumes "\<And>v. (\<And>e. e \<in> set (entries v) \<Longrightarrow> P (snd e)) \<Longrightarrow> P v"
  shows "P v"
proof (induction v rule: measure_induct_rule [of size])
  case (less v)
  show ?case
    by (rule assms) (rule less.IH, erule entries_size)
qed

subsection \<open>Validation\<close>



lemma entries_VArr_snd: "snd ` set (entries (VArr xs)) = set xs"
  by (simp flip: set_map)












subsection \<open>Reading\<close>

text \<open>
  C5. After \<^verbatim>\<open>createState({a: 1, b: 2})\<close> and \<^verbatim>\<open>removeKey("a")\<close>, the keys are
  \<^verbatim>\<open>["b"]\<close>, the size is 1 and the kind at \<^verbatim>\<open>get("a")\<close> is the empty kind, which
  the code names \<^verbatim>\<open>"undefined"\<close>.
\<close>

theorem C5_removal_semantics:
  "(case createState (VObj [(''a'', VAtom (ANum (Num 1))), (''b'', VAtom (ANum (Num 2)))]) of
      (thrown, root, _) \<Rightarrow>
        (case State_removeKey root [] ''a'' {} of
           (root', _) \<Rightarrow>
             thrown = None \<and> State_readKeys root' [] = [''b''] \<and> State_readSize root' [] = 1 \<and>
             State_readKind root' [''a''] = KUndefined))"
  by code_simp

text \<open>
  C9. Where the path leads to no Node, to an empty Node or to a leaf, \<^verbatim>\<open>readKeys\<close>
  returns the empty array and \<^verbatim>\<open>readSize\<close> returns 0. Both are functions of the tree
  alone: they return a value, no error and no tree.
\<close>

theorem C9_keys_and_size_off_branch:
  assumes "Node_getNode root ks = None \<or>
     (\<exists>n. Node_getNode root ks = Some n \<and> (tvalue n = CUndefined \<or> (\<exists>t. tvalue n = CTopic t)))"
  shows "State_readKeys root ks = [] \<and> State_readSize root ks = 0"
  using assms by (auto simp: State_readKeys_def State_readSize_def content_at_def)


theorem C9_keys_and_size_off_branch_witness:
  "(Node_getNode tree_ab [''a''] = None \<or>
     (\<exists>n. Node_getNode tree_ab [''a''] = Some n \<and> (tvalue n = CUndefined \<or> (\<exists>t. tvalue n = CTopic t)))) \<and>
   State_readKeys tree_ab [''a''] = [] \<and> State_readSize tree_ab [''a''] = 0"
proof -
  have h: "Node_getNode tree_ab [''a''] = None \<or>
     (\<exists>n. Node_getNode tree_ab [''a''] = Some n \<and> (tvalue n = CUndefined \<or> (\<exists>t. tvalue n = CTopic t)))"
    by (simp add: tree_ab_def)
  from C9_keys_and_size_off_branch [OF h] h show ?thesis
    by blast
qed

subsection \<open>The steps of an update, in closed form\<close>

lemma update_children_Cons:
  "update_children upd (e # es) bN = update_children upd es (child_step upd e bN)"
  by (simp add: child_step_def)

lemma set_keys_eq:
  "set_keys b ks N = (with_keys b ks, if ks = tvalue (keys b) then N else N \<union> subscribers (keys b))"
  by (auto simp: set_keys_def Topic_set_def with_keys_def seq_keys_def Let_def)

lemma with_keys_simps [simp]:
  "isArray (with_keys b ks) = isArray b"
  "nodes (with_keys b ks) = nodes b"
  "tvalue (keys (with_keys b ks)) = ks"
  "subscribers (keys (with_keys b ks)) = subscribers (keys b)"
  "detach (keys (with_keys b ks)) = detach (keys b)"
  by (simp_all add: with_keys_def)

lemma with_nodes_simps [simp]:
  "isArray (with_nodes b ns) = isArray b"
  "nodes (with_nodes b ns) = ns"
  "keys (with_nodes b ns) = keys b"
  by (simp_all add: with_nodes_def)

lemma with_keys_same [simp]: "with_keys b (tvalue (keys b)) = b"
  by (cases b; cases "keys b") (simp add: with_keys_def)

lemma with_nodes_same [simp]: "with_nodes b (nodes b) = b"
  by (cases b) (simp add: with_nodes_def)

lemma with_nodes_with_keys: "with_nodes (with_keys b ks) ns = with_keys (with_nodes b ns) ks"
  by (simp add: with_keys_def with_nodes_def)

lemma put_child_eq:
  "put_child b k c fired = with_nodes b (if fired then AList.delete k (nodes b) else AList.update k c (nodes b))"
  by (simp add: put_child_def with_nodes_def)

lemma Node_set_undefined:
  "Node_set c CUndefined N =
     (Topic CUndefined (subscribers c) (detach c),
      if tvalue c = CUndefined then N else N \<union> subscribers c,
      detach c \<and> subscribers c = {})"
  by (simp add: Node_set_def Topic_set_def Topic_tryDetach_def seq_content_def undef_content_def)

lemma clear_child_eq:
  "clear_child b k N =
     (case map_of (nodes b) k of
        None \<Rightarrow> (b, N)
      | Some c \<Rightarrow>
         (with_nodes b (if detach c \<and> subscribers c = {} then AList.delete k (nodes b)
                        else AList.update k (cleared c) (nodes b)),
          if tvalue c = CUndefined then N else N \<union> subscribers c))"
  by (simp add: clear_child_def Node_set_undefined put_child_eq cleared_def split: option.splits)

lemma Branch_getOrCreateNode_eq:
  "Branch_getOrCreateNode b k N =
     (with_keys (with_nodes b (if map_of (nodes b) k = None then AList.update k (createChild k) (nodes b) else nodes b))
        (if k \<in> set (tvalue (keys b)) then tvalue (keys b) else tvalue (keys b) @ [k]),
      slot b k,
      if k \<in> set (tvalue (keys b)) then N else N \<union> subscribers (keys b))"
  by (auto simp: Branch_getOrCreateNode_def set_keys_eq slot_def with_nodes_def with_keys_def split: option.splits)

lemma alist_update_update [simp]: "AList.update k v (AList.update k v' al) = AList.update k v al"
  by (induction al) auto

lemma alist_delete_update [simp]: "AList.delete k (AList.update k v al) = AList.delete k al"
  by (induction al) auto

lemma alist_update_slot: "map_of al k = Some c \<Longrightarrow> AList.update k c al = al"
  by (rule AList.update_triv)

lemma removeAll_eq_iff [simp]: "removeAll k ks = ks \<longleftrightarrow> k \<notin> set ks"
proof
  assume eq: "removeAll k ks = ks"
  show "k \<notin> set ks"
  proof
    assume "k \<in> set ks"
    then have "length (removeAll k ks) < length ks"
      by (rule length_removeAll_less)
    with eq show False by simp
  qed
qed simp

lemma child_step_nonempty:
  assumes "\<not> is_empty (snd e)"
  shows "child_step upd e (b, N) =
     (case upd (slot b (fst e)) (snd e) (if fst e \<in> set (tvalue (keys b)) then N else N \<union> subscribers (keys b)) of
        (c', N') \<Rightarrow>
          (with_keys (with_nodes b (AList.update (fst e) c' (nodes b)))
             (if fst e \<in> set (tvalue (keys b)) then tvalue (keys b) else tvalue (keys b) @ [fst e]), N'))"
  using assms
  by (auto simp: child_step_def Branch_getOrCreateNode_eq child_update_def put_child_eq slot_def
      AList.update_conv' with_nodes_def with_keys_def
      split: option.splits prod.splits)

lemma child_step_empty:
  assumes "is_empty (snd e)"
  shows "child_step upd e (b, N) =
     (with_keys (with_nodes b (if detach (slot b (fst e)) \<and> subscribers (slot b (fst e)) = {}
                               then AList.delete (fst e) (nodes b)
                               else AList.update (fst e) (cleared (slot b (fst e))) (nodes b)))
        (removeAll (fst e) (tvalue (keys b))),
      N \<union> subscribers (keys b) \<union> (if tvalue (slot b (fst e)) = CUndefined then {} else subscribers (slot b (fst e))))"
  using assms
  apply (auto simp: child_step_def Branch_getOrCreateNode_eq child_update_def Branch_removeKey_def
      set_keys_eq clear_child_eq slot_def AList.update_conv' with_nodes_def with_keys_def
      createChild_def cleared_def
      split: option.splits prod.splits)
  done

subsection \<open>The keys of an array are pairwise different\<close>

lemma digit_char_inj: "d < 10 \<Longrightarrow> d' < 10 \<Longrightarrow> digit_char d = digit_char d' \<Longrightarrow> d = d'"
proof -
  have "distinct ''0123456789''" by simp
  then show "d < 10 \<Longrightarrow> d' < 10 \<Longrightarrow> digit_char d = digit_char d' \<Longrightarrow> d = d'"
    unfolding digit_char_def by (subst (asm) nth_eq_iff_index_eq) simp_all
qed

lemma string_of_nat_nonempty [simp]: "string_of_nat n \<noteq> []" "[] \<noteq> string_of_nat n"
  by (subst string_of_nat.simps, simp)+

lemma string_of_nat_inj: "string_of_nat n = string_of_nat m \<Longrightarrow> n = m"
proof (induction n arbitrary: m rule: string_of_nat.induct)
  case (1 n)
  show ?case
  proof (cases "n < 10")
    case n: True
    show ?thesis
    proof (cases "m < 10")
      case True
      with n "1.prems" show ?thesis
        by (simp add: string_of_nat.simps [of n] string_of_nat.simps [of m] digit_char_inj)
    next
      case False
      with n "1.prems" show ?thesis
        by (simp add: string_of_nat.simps [of n] string_of_nat.simps [of m])
    qed
  next
    case n: False
    show ?thesis
    proof (cases "m < 10")
      case True
      with n "1.prems" show ?thesis
        by (simp add: string_of_nat.simps [of n] string_of_nat.simps [of m])
    next
      case False
      with n "1.prems" have eq: "string_of_nat (n div 10) = string_of_nat (m div 10)"
        and d: "digit_char (n mod 10) = digit_char (m mod 10)"
        by (simp_all add: string_of_nat.simps [of n] string_of_nat.simps [of m])
      from "1.IH" [OF n eq] have "n div 10 = m div 10" .
      moreover from d have "n mod 10 = m mod 10"
        by (rule digit_char_inj [rotated 2]) simp_all
      ultimately show ?thesis
        by (metis div_mult_mod_eq)
    qed
  qed
qed


lemma entries_VArr_snd': "map snd (entries (VArr xs)) = xs"
  by simp

lemma distinct_index_keys: "distinct (map string_of_nat [0..<n])"
  by (simp add: distinct_map inj_on_def string_of_nat_inj)

lemma wf_val_entries:
  assumes "wf_val v"
  shows "distinct (map fst (entries v))" and "\<And>e. e \<in> set (entries v) \<Longrightarrow> wf_val (snd e)"
proof -
  show "distinct (map fst (entries v))"
    using assms by (cases v) (simp_all add: distinct_index_keys)
  show "wf_val (snd e)" if "e \<in> set (entries v)" for e
  proof (cases v)
    case (VArr xs)
    with that have "snd e \<in> set xs"
      by (metis entries_VArr_snd' image_eqI set_map)
    with VArr assms show ?thesis by simp
  qed (use that assms in auto)
qed

subsection \<open>Unfolding \<open>Node_update\<close>\<close>

lemma with_isArray_simps [simp]:
  "isArray (with_isArray b a) = a" "keys (with_isArray b a) = keys b" "nodes (with_isArray b a) = nodes b"
  by (simp_all add: with_isArray_def)

lemma with_isArray_same [simp]: "with_isArray b (isArray b) = b"
  by (cases b) (simp add: with_isArray_def)

lemma entries_snd_VArr: "e \<in> set (entries (VArr xs)) \<Longrightarrow> snd e \<in> set xs"
  by (metis entries_VArr_snd' image_eqI set_map)

lemma snd_entries_VArr: "x \<in> set xs \<Longrightarrow> \<exists>e \<in> set (entries (VArr xs)). snd e = x"
  by (metis (no_types, lifting) entries_VArr_snd' imageE list.set_map)

lemma no_empty_entries_iff:
  "no_empty_entries v \<longleftrightarrow> (\<forall>e \<in> set (entries v). \<not> is_empty (snd e) \<and> no_empty_entries (snd e))"
proof (cases v)
  case (VArr xs)
  then show ?thesis
    using entries_snd_VArr [of _ xs] snd_entries_VArr [of _ xs] by (auto simp del: entries.simps)
qed simp_all

lemma no_NaN_entries: "no_NaN v \<Longrightarrow> e \<in> set (entries v) \<Longrightarrow> no_NaN (snd e)"
  using entries_snd_VArr by (cases v) (auto simp del: entries.simps, auto)

lemma Node_getOrCreateBranch_eq:
  "Node_getOrCreateBranch n N =
     (case tvalue n of
        CBranch b \<Rightarrow> (n, b, N)
      | _ \<Rightarrow> (with_content n (CBranch new_Branch), new_Branch, N \<union> subscribers n))"
  by (simp add: Node_getOrCreateBranch_def Node_set_def Topic_set_def seq_content_def with_content_def Let_def
      split: content.splits)

lemma Node_getOrCreateTopic_eq:
  "Node_getOrCreateTopic n N =
     (case tvalue n of
        CTopic t \<Rightarrow> (n, t, N)
      | _ \<Rightarrow> (with_content n (CTopic new_Topic), new_Topic, N \<union> subscribers n))"
  by (simp add: Node_getOrCreateTopic_def Node_set_def Topic_set_def seq_content_def with_content_def Let_def
      split: content.splits)

lemma Node_update_empty:
  "is_empty v \<Longrightarrow> Node_update n v N = (cleared n, if tvalue n = CUndefined then N else N \<union> subscribers n)"
  by (subst Node_update.simps) (simp add: Node_set_undefined cleared_def)

lemma Node_update_object:
  assumes "\<not> is_empty v" "typeof_object v"
  shows "Node_update n v N =
    (case Node_getOrCreateBranch n N of
       (n1, b0, N1) \<Rightarrow>
         (case update_children Node_update (entries v)
                 (prune (map fst (entries v)) (with_isArray b0 (isArray_val v), N1)) of
            (b4, N4) \<Rightarrow> (with_content n1 (CBranch b4), N4)))"
  using assms
  by (subst Node_update.simps) (simp add: prune_def with_isArray_def Let_def split: prod.splits)

lemma Node_update_atom:
  "Node_update n (VAtom a) N =
    (case Node_getOrCreateTopic n N of
       (n1, t, N1) \<Rightarrow>
         (with_content n1 (CTopic (Topic (Some a) (subscribers t) (detach t))),
          if seq_leaf (tvalue t) (Some a) then N1 else N1 \<union> subscribers t))"
  by (subst Node_update.simps) (simp add: Topic_set_def Let_def split: prod.splits)

lemma val_cases3:
  obtains (empty) "is_empty v" | (object) "\<not> is_empty v" "typeof_object v" | (atom) a where "v = VAtom a"
  by (cases v) auto

subsection \<open>Clearing the dropped children\<close>

lemma clear_child_keys [simp]:
  "keys (fst (clear_child b k N)) = keys b" "isArray (fst (clear_child b k N)) = isArray b"
  by (simp_all add: clear_child_eq split: option.splits)

lemma clear_child_other:
  "k' \<noteq> k \<Longrightarrow> map_of (nodes (fst (clear_child b k N))) k' = map_of (nodes b) k'"
  by (simp add: clear_child_eq AList.update_conv' AList.delete_conv' split: option.splits)

lemma clear_dropped_keys [simp]:
  "keys (fst (clear_dropped nk ks bN)) = keys (fst bN)"
  "isArray (fst (clear_dropped nk ks bN)) = isArray (fst bN)"
  by (induction ks arbitrary: bN) simp_all

lemma clear_dropped_kept:
  "k \<in> set nk \<Longrightarrow> map_of (nodes (fst (clear_dropped nk ks bN))) k = map_of (nodes (fst bN)) k"
proof (induction ks arbitrary: bN)
  case (Cons a ks)
  show ?case
  proof (cases "a \<in> set nk")
    case True
    then show ?thesis using Cons by simp
  next
    case False
    with Cons.prems have "k \<noteq> a" by auto
    then show ?thesis
      using False Cons by (simp add: clear_child_other)
  qed
qed simp

lemma clear_dropped_noop:
  "set ks \<subseteq> set nk \<Longrightarrow> clear_dropped nk ks bN = bN"
  by (induction ks arbitrary: bN) auto

lemma prune_keys:
  "tvalue (keys (fst (prune nk bN))) = filter (\<lambda>k. k \<in> set nk) (tvalue (keys (fst bN)))"
  "subscribers (keys (fst (prune nk bN))) = subscribers (keys (fst bN))"
  "detach (keys (fst (prune nk bN))) = detach (keys (fst bN))"
  "isArray (fst (prune nk bN)) = isArray (fst bN)"
  by (simp_all add: prune_def set_keys_eq split: prod.splits)
     (metis clear_dropped_keys fst_conv)+

lemma prune_kept:
  "k \<in> set nk \<Longrightarrow> map_of (nodes (fst (prune nk bN))) k = map_of (nodes (fst bN)) k"
  by (simp add: prune_def set_keys_eq split: prod.splits) (metis clear_dropped_kept fst_conv)

lemma prune_noop:
  assumes "set (tvalue (keys (fst bN))) \<subseteq> set nk"
  shows "prune nk bN = bN"
proof -
  have "filter (\<lambda>k. k \<in> set nk) (tvalue (keys (fst bN))) = tvalue (keys (fst bN))"
    using assms by (auto simp: filter_id_conv)
  moreover have "clear_dropped nk (tvalue (keys (fst bN))) bN = bN"
    using assms by (rule clear_dropped_noop)
  ultimately show ?thesis
    by (cases bN) (simp add: prune_def set_keys_eq)
qed

subsection \<open>The loop over the new keys\<close>

lemma slot_update_other: "k' \<noteq> k \<Longrightarrow> slot (with_keys (with_nodes b (AList.update k c (nodes b))) ks) k' = slot b k'"
  by (simp add: slot_def AList.update_conv')

lemma update_children_establish:
  fixes Q :: "node \<Rightarrow> val \<Rightarrow> bool" and R :: "node \<Rightarrow> bool"
  assumes "distinct (map fst es)"
    and "\<And>e. e \<in> set es \<Longrightarrow> \<not> is_empty (snd e)"
    and "\<And>e c N. e \<in> set es \<Longrightarrow> R c \<Longrightarrow> Q (fst (upd c (snd e) N)) (snd e)"
    and "\<And>e. e \<in> set es \<Longrightarrow> R (slot b (fst e))"
  shows "isArray (fst (update_children upd es (b, N))) = isArray b \<and>
     tvalue (keys (fst (update_children upd es (b, N)))) =
       tvalue (keys b) @ filter (\<lambda>k. k \<notin> set (tvalue (keys b))) (map fst es) \<and>
     subscribers (keys (fst (update_children upd es (b, N)))) = subscribers (keys b) \<and>
     detach (keys (fst (update_children upd es (b, N)))) = detach (keys b) \<and>
     (\<forall>e \<in> set es. \<exists>c. map_of (nodes (fst (update_children upd es (b, N)))) (fst e) = Some c \<and> Q c (snd e)) \<and>
     (\<forall>k. k \<notin> fst ` set es \<longrightarrow> map_of (nodes (fst (update_children upd es (b, N)))) k = map_of (nodes b) k)"
  using assms
proof (induction es arbitrary: b N)
  case Nil
  show ?case by simp
next
  case (Cons e es)
  define k where "k = fst e"
  define x where "x = snd e"
  define N0 where "N0 = (if k \<in> set (tvalue (keys b)) then N else N \<union> subscribers (keys b))"
  define c' where "c' = fst (upd (slot b k) x N0)"
  define N1 where "N1 = snd (upd (slot b k) x N0)"
  define ks' where "ks' = (if k \<in> set (tvalue (keys b)) then tvalue (keys b) else tvalue (keys b) @ [k])"
  define b1 where "b1 = with_keys (with_nodes b (AList.update k c' (nodes b))) ks'"
  have ne: "\<not> is_empty (snd e)"
    using Cons.prems(2) by simp
  have step: "child_step upd e (b, N) = (b1, N1)"
    unfolding child_step_nonempty [OF ne]
    by (simp add: b1_def ks'_def c'_def N1_def N0_def k_def x_def split: prod.splits)
  have k_notin: "k \<notin> fst ` set es"
    using Cons.prems(1) by (simp add: k_def)
  have Qc: "Q c' x"
    unfolding c'_def x_def using Cons.prems(3) [of e "slot b k" N0] Cons.prems(4) [of e]
    by (simp add: k_def)
  have R1: "R (slot b1 (fst e'))" if "e' \<in> set es" for e'
  proof -
    from that k_notin have "fst e' \<noteq> k" by auto
    then have "slot b1 (fst e') = slot b (fst e')"
      unfolding b1_def by (rule slot_update_other)
    then show ?thesis
      using Cons.prems(4) [of e'] that by simp
  qed
  have IH: "isArray (fst (update_children upd es (b1, N1))) = isArray b1 \<and>
     tvalue (keys (fst (update_children upd es (b1, N1)))) =
       tvalue (keys b1) @ filter (\<lambda>k. k \<notin> set (tvalue (keys b1))) (map fst es) \<and>
     subscribers (keys (fst (update_children upd es (b1, N1)))) = subscribers (keys b1) \<and>
     detach (keys (fst (update_children upd es (b1, N1)))) = detach (keys b1) \<and>
     (\<forall>e \<in> set es. \<exists>c. map_of (nodes (fst (update_children upd es (b1, N1)))) (fst e) = Some c \<and> Q c (snd e)) \<and>
     (\<forall>k. k \<notin> fst ` set es \<longrightarrow> map_of (nodes (fst (update_children upd es (b1, N1)))) k = map_of (nodes b1) k)"
    using Cons.prems(1) Cons.prems(2) Cons.prems(3) R1
    by (intro Cons.IH) auto
  let ?b' = "fst (update_children upd es (b1, N1))"
  have unfold: "update_children upd (e # es) (b, N) = update_children upd es (b1, N1)"
    by (simp only: update_children_Cons step)
  have filt: "filter (\<lambda>k'. k' \<notin> set ks') (map fst es) = filter (\<lambda>k'. k' \<notin> set (tvalue (keys b))) (map fst es)"
    using k_notin by (intro filter_cong) (auto simp: ks'_def)
  have keys_eq: "tvalue (keys ?b') = tvalue (keys b) @ filter (\<lambda>k. k \<notin> set (tvalue (keys b))) (map fst (e # es))"
    using IH filt by (simp add: b1_def ks'_def k_def)
  have at_k: "map_of (nodes ?b') k = Some c'"
    using IH k_notin by (simp add: b1_def AList.update_conv')
  have others: "map_of (nodes ?b') k' = map_of (nodes b) k'" if "k' \<notin> fst ` set (e # es)" for k'
  proof -
    from that have "k' \<noteq> k" "k' \<notin> fst ` set es" by (auto simp: k_def)
    then show ?thesis
      using IH by (simp add: b1_def AList.update_conv')
  qed
  show ?case
    unfolding unfold
    using IH keys_eq at_k Qc others
    by (auto simp: b1_def k_def x_def)
qed

lemma update_children_noop:
  assumes "\<And>e. e \<in> set es \<Longrightarrow> \<not> is_empty (snd e) \<and> fst e \<in> set (tvalue (keys b)) \<and>
             (\<exists>c. map_of (nodes b) (fst e) = Some c \<and> upd c (snd e) N = (c, N))"
  shows "update_children upd es (b, N) = (b, N)"
  using assms
proof (induction es)
  case Nil
  show ?case by simp
next
  case (Cons e es)
  from Cons.prems [of e] obtain c where
    e: "\<not> is_empty (snd e)" "fst e \<in> set (tvalue (keys b))"
      "map_of (nodes b) (fst e) = Some c" "upd c (snd e) N = (c, N)"
    by auto
  have "child_step upd e (b, N) = (b, N)"
    unfolding child_step_nonempty [OF e(1)]
    using e(2-4) by (simp add: slot_def AList.update_triv)
  then show ?case
    using Cons by (simp only: update_children_Cons) simp
qed

subsection \<open>Updating twice\<close>

lemma seq_leaf_iff: "seq_leaf a b \<longleftrightarrow> a = b \<and> a \<noteq> Some (ANum NaN)"
  by (cases "(a, b)" rule: seq_leaf.cases) auto

lemma seq_leaf_refl: "a \<noteq> Some (ANum NaN) \<Longrightarrow> seq_leaf a a"
  by (simp add: seq_leaf_iff)

lemma stores_noop:
  assumes "stores n v" "no_empty_entries v" "no_NaN v"
  shows "Node_update n v N = (n, N)"
  using assms
proof (induction v arbitrary: n rule: val_entries_induct)
  case (step v)
  show ?case
  proof (cases v rule: val_cases3)
    case empty
    with step.prems(1) have "tvalue n = CUndefined"
      by (simp add: stores.simps [of n v])
    then show ?thesis
      using empty by (cases n) (simp add: Node_update_empty cleared_def)
  next
    case object
    from step.prems(1) object obtain b where b: "tvalue n = CBranch b"
      "isArray b = isArray_val v" "set (tvalue (keys b)) = fst ` set (entries v)"
      and ch0: "\<forall>e \<in> set (entries v).
                case map_of (nodes b) (fst e) of None \<Rightarrow> False | Some c \<Rightarrow> stores c (snd e)"
      by (auto simp: stores.simps [of n v] split: content.splits)
    have ch: "\<exists>c. map_of (nodes b) (fst e) = Some c \<and> stores c (snd e)" if "e \<in> set (entries v)" for e
      using ch0 that by (auto split: option.splits)
    have pr: "prune (map fst (entries v)) (b, N) = (b, N)"
      by (rule prune_noop) (simp add: b(3))
    have "update_children Node_update (entries v) (b, N) = (b, N)"
    proof (rule update_children_noop)
      fix e assume e: "e \<in> set (entries v)"
      from ch [OF e] obtain c where c: "map_of (nodes b) (fst e) = Some c" "stores c (snd e)"
        by blast
      from step.prems(2) e have ne: "\<not> is_empty (snd e)" "no_empty_entries (snd e)"
        by (subst (asm) no_empty_entries_iff, blast)+
      have "Node_update c (snd e) N = (c, N)"
        using e c(2) ne(2) no_NaN_entries [OF step.prems(3) e] by (rule step.IH)
      with c ne e b(3) show "\<not> is_empty (snd e) \<and> fst e \<in> set (tvalue (keys b)) \<and>
             (\<exists>c. map_of (nodes b) (fst e) = Some c \<and> Node_update c (snd e) N = (c, N))"
        by auto
    qed
    then show ?thesis
      using object b pr
      by (cases n) (simp add: Node_update_object Node_getOrCreateBranch_eq with_content_def flip: b(2))
  next
    case (atom a)
    with step.prems(1) obtain t where t: "tvalue n = CTopic t" "tvalue t = Some a"
      by (auto simp: stores.simps [of n "VAtom a"] split: content.splits)
    from step.prems(3) atom have "a \<noteq> ANum NaN" by simp
    then have "seq_leaf (Some a) (Some a)"
      by (simp add: seq_leaf_refl)
    then show ?thesis
      using atom t by (cases n; cases t) (simp add: Node_update_atom Node_getOrCreateTopic_eq with_content_def)
  qed
qed

lemma stores_objectI:
  assumes "\<not> is_empty v" "typeof_object v" "tvalue n = CBranch b"
    "isArray b = isArray_val v" "set (tvalue (keys b)) = fst ` set (entries v)"
    "\<And>e. e \<in> set (entries v) \<Longrightarrow> \<exists>c. map_of (nodes b) (fst e) = Some c \<and> stores c (snd e)"
  shows "stores n v"
proof -
  have "case map_of (nodes b) (fst e) of None \<Rightarrow> False | Some c \<Rightarrow> stores c (snd e)"
    if "e \<in> set (entries v)" for e
    using assms(6) [OF that] by auto
  then show ?thesis
    using assms(1-5) by (subst stores.simps) simp
qed

lemma Node_update_object_result:
  assumes "\<not> is_empty v" "typeof_object v"
  obtains n1 b0 N1 b3 N3 where
    "Node_getOrCreateBranch n N = (n1, b0, N1)"
    "prune (map fst (entries v)) (with_isArray b0 (isArray_val v), N1) = (b3, N3)"
    "Node_update n v N =
       (with_content n1 (CBranch (fst (update_children Node_update (entries v) (b3, N3)))),
        snd (update_children Node_update (entries v) (b3, N3)))"
proof -
  obtain n1 b0 N1 where 1: "Node_getOrCreateBranch n N = (n1, b0, N1)"
    by (metis prod_cases3)
  obtain b3 N3 where 2: "prune (map fst (entries v)) (with_isArray b0 (isArray_val v), N1) = (b3, N3)"
    by fastforce
  show thesis
    by (rule that [OF 1 2]) (simp add: Node_update_object [OF assms] 1 2 split: prod.splits)
qed

lemma Node_update_stores:
  assumes "wf_val v" "no_empty_entries v"
  shows "stores (fst (Node_update n v N)) v"
  using assms
proof (induction v arbitrary: n N rule: val_entries_induct)
  case (step v)
  show ?case
  proof (cases v rule: val_cases3)
    case empty
    then show ?thesis
      by (simp add: Node_update_empty stores.simps [of _ v] cleared_def)
  next
    case (atom a)
    then show ?thesis
      by (simp add: Node_update_atom stores.simps [of _ "VAtom a"] with_content_def split: prod.splits)
  next
    case object
    let ?es = "entries v"
    from object obtain n1 b0 N1 b3 N3 where
      1: "Node_getOrCreateBranch n N = (n1, b0, N1)" and
      2: "prune (map fst ?es) (with_isArray b0 (isArray_val v), N1) = (b3, N3)" and
      3: "Node_update n v N =
           (with_content n1 (CBranch (fst (update_children Node_update ?es (b3, N3)))),
            snd (update_children Node_update ?es (b3, N3)))"
      by (rule Node_update_object_result)
    let ?b4 = "fst (update_children Node_update ?es (b3, N3))"
    have b3: "isArray b3 = isArray_val v"
      "tvalue (keys b3) = filter (\<lambda>k. k \<in> set (map fst ?es)) (tvalue (keys b0))"
      using prune_keys(1,4) [of "map fst ?es" "(with_isArray b0 (isArray_val v), N1)"]
      unfolding 2 by simp_all
    have est: "isArray ?b4 = isArray b3 \<and>
       tvalue (keys ?b4) = tvalue (keys b3) @ filter (\<lambda>k. k \<notin> set (tvalue (keys b3))) (map fst ?es) \<and>
       subscribers (keys ?b4) = subscribers (keys b3) \<and>
       detach (keys ?b4) = detach (keys b3) \<and>
       (\<forall>e \<in> set ?es. \<exists>c. map_of (nodes ?b4) (fst e) = Some c \<and> stores c (snd e)) \<and>
       (\<forall>k. k \<notin> fst ` set ?es \<longrightarrow> map_of (nodes ?b4) k = map_of (nodes b3) k)"
    proof (rule update_children_establish [where R = "\<lambda>_. True"])
      show "distinct (map fst ?es)"
        using step.prems(1) by (rule wf_val_entries)
      show "\<not> is_empty (snd e)" if "e \<in> set ?es" for e
        using step.prems(2) that by (subst (asm) no_empty_entries_iff) blast
      show "stores (fst (Node_update c (snd e) N)) (snd e)" if "e \<in> set ?es" for e c N
      proof (rule step.IH [OF that])
        show "wf_val (snd e)"
          using step.prems(1) that by (rule wf_val_entries)
        show "no_empty_entries (snd e)"
          using step.prems(2) that by (subst (asm) no_empty_entries_iff) blast
      qed
    qed simp
    have "set (tvalue (keys ?b4)) = fst ` set ?es"
      using est b3(2) by auto
    with est b3(1) have "stores (with_content n1 (CBranch ?b4)) v"
      by (intro stores_objectI [OF object, of _ ?b4]) (auto simp: with_content_def)
    then show ?thesis
      by (simp add: 3)
  qed
qed

text \<open>
  C3, amended. For every well-formed value without NaN and without a null or undefined entry,
  and every Node, a second \<^verbatim>\<open>update\<close> with the same value returns the tree of the
  first one and the notified set it was given: no Topic of the tree marks a subscriber dirty.
\<close>

theorem C3_update_idempotent:
  assumes "wf_val v" "no_empty_entries v" "no_NaN v"
  shows "Node_update (fst (Node_update n v N)) v N' = (fst (Node_update n v N), N')"
  by (intro stores_noop Node_update_stores assms)

theorem C3_update_idempotent_witness:
  "wf_val (VObj [(''a'', VArr [VAtom (ABool True)]), (''b'', VAtom (ANum (Num 3)))]) \<and>
   no_empty_entries (VObj [(''a'', VArr [VAtom (ABool True)]), (''b'', VAtom (ANum (Num 3)))]) \<and>
   no_NaN (VObj [(''a'', VArr [VAtom (ABool True)]), (''b'', VAtom (ANum (Num 3)))]) \<and>
   Node_update (fst (Node_update tree_ab (VObj [(''a'', VArr [VAtom (ABool True)]), (''b'', VAtom (ANum (Num 3)))]) {}))
       (VObj [(''a'', VArr [VAtom (ABool True)]), (''b'', VAtom (ANum (Num 3)))]) {} =
     (fst (Node_update tree_ab (VObj [(''a'', VArr [VAtom (ABool True)]), (''b'', VAtom (ANum (Num 3)))]) {}), {})"
  using C3_update_idempotent [of "VObj [(''a'', VArr [VAtom (ABool True)]), (''b'', VAtom (ANum (Num 3)))]" tree_ab "{}" "{}"]
  by simp

text \<open>
  The claim as stated fails in two ways. On a Branch whose \<open>keys\<close> Topic has the
  subscriber 1, the second update with \<^verbatim>\<open>{a: null}\<close> adds the key and removes it
  again, and marks 1 dirty. On a leaf whose Topic has the subscriber 2, the second update
  with NaN marks 2 dirty, since NaN is not strictly equal to itself.
\<close>

theorem C3_update_idempotent_counterexample:
  "validateStateInput (VObj [(''a'', VNull)]) = Inr () \<and>
   snd (Node_update
          (fst (Node_update (Topic (CBranch (Branch False (Topic [] {1} False) [])) {1} False)
                  (VObj [(''a'', VNull)]) {}))
          (VObj [(''a'', VNull)]) {}) = {1} \<and>
   snd (Node_update
          (fst (Node_update (Topic (CTopic (Topic (Some (ANum (Num 0))) {2} False)) {2} False)
                  (VAtom (ANum NaN)) {}))
          (VAtom (ANum NaN)) {}) = {2}"
  by code_simp

subsection \<open>Round trip\<close>



lemma extractValue_simps:
  "tvalue n = CUndefined \<Longrightarrow> extractValue n = Inr VUndefined"
  "tvalue n = CTopic t \<Longrightarrow> extractValue n = Inr (case tvalue t of None \<Rightarrow> VUndefined | Some a \<Rightarrow> VAtom a)"
  "tvalue n = CBranch b \<Longrightarrow> isArray b \<Longrightarrow> extractValue n =
     (case collect (map (\<lambda>k. case map_of (nodes b) k of
                                    None \<Rightarrow> Inl TypeError
                                  | Some c \<Rightarrow> extractValue c) (tvalue (keys b))) of
             Inl e \<Rightarrow> Inl e
           | Inr vs \<Rightarrow> Inr (VArr vs))"
  "tvalue n = CBranch b \<Longrightarrow> \<not> isArray b \<Longrightarrow> extractValue n =
     assign_all (\<lambda>k. case map_of (nodes b) k of
                         None \<Rightarrow> Inl TypeError
                       | Some c \<Rightarrow> extractValue c) (tvalue (keys b)) (VObj [])"
  by (subst extractValue.simps, simp)+




lemma new_Branch_simps [simp]:
  "isArray new_Branch = False" "tvalue (keys new_Branch) = []" "nodes new_Branch = []"
  "subscribers (keys new_Branch) = {}" "detach (keys new_Branch) = False"
  by (simp_all add: new_Branch_def)












subsection \<open>Detaching\<close>

lemma Topic_apply_detach [simp]: "detach (fst (Topic_apply seq undef op t)) = detach t"
  by (cases op) (simp_all add: Topic_set_def Topic_subscribe_def Topic_unsubscribe_def Let_def)

lemma Topic_after_detach [simp]: "detach (Topic_after seq undef t ops) = detach t"
  by (induction ops arbitrary: t) simp_all







subsection \<open>Keys that a step does not touch\<close>

lemma update_children_append:
  "update_children upd (es @ es') bN = update_children upd es' (update_children upd es bN)"
  by (induction es arbitrary: bN) simp_all

lemma child_step_other:
  assumes "k \<noteq> fst e"
  shows "map_of (nodes (fst (child_step upd e (b, N)))) k = map_of (nodes b) k \<and>
    (k \<in> set (tvalue (keys (fst (child_step upd e (b, N))))) \<longleftrightarrow> k \<in> set (tvalue (keys b)))"
proof (cases "is_empty (snd e)")
  case True
  show ?thesis
    using assms by (simp add: child_step_empty [OF True] AList.update_conv' AList.delete_conv')
next
  case False
  show ?thesis
    using assms by (simp add: child_step_nonempty [OF False] AList.update_conv' split: prod.splits)
qed

lemma update_children_other:
  assumes "k \<notin> fst ` set es"
  shows "map_of (nodes (fst (update_children upd es bN))) k = map_of (nodes (fst bN)) k \<and>
    (k \<in> set (tvalue (keys (fst (update_children upd es bN)))) \<longleftrightarrow> k \<in> set (tvalue (keys (fst bN))))"
  using assms
proof (induction es arbitrary: bN)
  case Nil
  show ?case by simp
next
  case (Cons e es)
  obtain b N where bN: "bN = (b, N)" by (cases bN)
  from Cons.prems have "k \<noteq> fst e" "k \<notin> fst ` set es" by auto
  with Cons.IH [of "child_step upd e bN"] child_step_other [of k e upd b N]
  show ?case
    unfolding update_children_Cons bN by simp
qed

subsection \<open>The slot of an empty entry\<close>

lemma child_step_empty_slot:
  assumes "is_empty (snd e)"
  shows "map_of (nodes (fst (child_step upd e (b, N)))) (fst e) = cleared_slot b (fst e)"
    and "fst e \<notin> set (tvalue (keys (fst (child_step upd e (b, N)))))"
proof -
  show "map_of (nodes (fst (child_step upd e (b, N)))) (fst e) = cleared_slot b (fst e)"
    by (simp add: child_step_empty [OF assms] cleared_slot_def slot_def createChild_def
        AList.update_conv' AList.delete_conv' split: option.splits)
  show "fst e \<notin> set (tvalue (keys (fst (child_step upd e (b, N)))))"
    by (simp add: child_step_empty [OF assms])
qed

lemma cleared_slot_content:
  "cleared_slot b k = Some c \<Longrightarrow> tvalue c = CUndefined"
  by (auto simp: cleared_slot_def cleared_def split: option.splits if_splits)

lemma update_children_empty_entry:
  assumes "distinct (map fst es)" "e \<in> set es" "is_empty (snd e)"
  shows "fst e \<notin> set (tvalue (keys (fst (update_children upd es bN)))) \<and>
    (case map_of (nodes (fst (update_children upd es bN))) (fst e) of
       None \<Rightarrow> True | Some c \<Rightarrow> tvalue c = CUndefined)"
proof -
  from assms(2) obtain es1 es2 where es: "es = es1 @ e # es2"
    by (auto simp: in_set_conv_decomp)
  with assms(1) have notin: "fst e \<notin> fst ` set es2"
    by auto
  obtain b1 N1 where 1: "update_children upd es1 bN = (b1, N1)"
    by fastforce
  let ?s = "child_step upd e (b1, N1)"
  have eq: "update_children upd es bN = update_children upd es2 ?s"
    by (simp add: es update_children_append 1 child_step_def)
  from update_children_other [OF notin, of upd ?s] child_step_empty_slot [OF assms(3), of upd b1 N1]
  show ?thesis
    unfolding eq by (auto split: option.splits dest: cleared_slot_content)
qed

subsection \<open>Walking a path\<close>

lemma Node_getNode_append:
  "Node_getNode n (ks @ ks') = (case Node_getNode n ks of None \<Rightarrow> None | Some m \<Rightarrow> Node_getNode m ks')"
  by (induction ks arbitrary: n) (auto split: content.splits option.splits)

lemma with_content_simps [simp]:
  "tvalue (with_content n c) = c" "subscribers (with_content n c) = subscribers n"
  "detach (with_content n c) = detach n" "with_content (with_content n c) c' = with_content n c'"
  by (simp_all add: with_content_def)


lemma Branch_getOrCreateNode_slot:
  assumes "Branch_getOrCreateNode b k N = (b1, c, N1)"
  shows "map_of (nodes b1) k = Some c"
  using assms by (auto simp: Branch_getOrCreateNode_eq slot_def AList.update_conv' split: option.splits)

lemma put_child_simps [simp]:
  "isArray (put_child b k c f) = isArray b" "keys (put_child b k c f) = keys b"
  "nodes (put_child b k c False) = AList.update k c (nodes b)"
  "nodes (put_child b k c True) = AList.delete k (nodes b)"
  by (simp_all add: put_child_def)

lemma put_child_same: "map_of (nodes b) k = Some c \<Longrightarrow> put_child b k c False = b"
  by (cases b) (simp add: put_child_def AList.update_triv)

lemma put_child_put_child [simp]: "put_child (put_child b k c False) k c' False = put_child b k c' False"
  by (simp add: put_child_def)

lemma update_walk_Nil: "update_walk n [] v N = Node_update n v N"
  by (simp add: update_walk_def)

lemma update_walk_single:
  "update_walk n [k] v N =
     (case Node_getOrCreateBranch n N of
        (n1, b, N1) \<Rightarrow>
          (case Branch_getOrCreateNode b k N1 of
             (b1, c, N2) \<Rightarrow>
               (case Node_update_child b1 k v N2 of (b2, N3) \<Rightarrow> (with_content n1 (CBranch b2), N3))))"
  by (auto simp: update_walk_def on_branch_def put_child_same dest: Branch_getOrCreateNode_slot
      split: prod.splits)

lemma update_walk_Cons_Cons:
  "update_walk n (k # k' # ks) v N =
     (case Node_getOrCreateBranch n N of
        (n1, b, N1) \<Rightarrow>
          (case Branch_getOrCreateNode b k N1 of
             (b1, c, N2) \<Rightarrow>
               (case update_walk c (k' # ks) v N2 of
                  (c', N3) \<Rightarrow> (with_content n1 (CBranch (put_child b1 k c' False)), N3))))"
  by (simp add: update_walk_def AList.update_conv' split: prod.splits)

lemma content_at_Cons:
  "tvalue n = CBranch b \<Longrightarrow> map_of (nodes b) k = Some c \<Longrightarrow> content_at n (k # ks) = content_at c ks"
  by (simp add: content_at_def)

lemma update_walk_snoc:
  "\<exists>b N0 c0. map_of (nodes b) k = Some c0 \<and>
     content_at (fst (update_walk n (ks @ [k]) v N)) ks = CBranch (fst (Node_update_child b k v N0))"
proof (induction ks arbitrary: n N)
  case Nil
  obtain n1 b N1 where 1: "Node_getOrCreateBranch n N = (n1, b, N1)"
    by (metis prod_cases3)
  obtain b1 c N2 where 2: "Branch_getOrCreateNode b k N1 = (b1, c, N2)"
    by (metis prod_cases3)
  have "content_at (fst (update_walk n [k] v N)) [] = CBranch (fst (Node_update_child b1 k v N2))"
    by (simp add: update_walk_single 1 2 content_at_def split: prod.splits)
  with Branch_getOrCreateNode_slot [OF 2] show ?case
    by auto
next
  case (Cons k0 ks)
  obtain k' ks' where snoc: "ks @ [k] = k' # ks'"
    by (cases ks) auto
  obtain n1 b N1 where 1: "Node_getOrCreateBranch n N = (n1, b, N1)"
    by (metis prod_cases3)
  obtain b1 c N2 where 2: "Branch_getOrCreateNode b k0 N1 = (b1, c, N2)"
    by (metis prod_cases3)
  let ?c' = "fst (update_walk c (ks @ [k]) v N2)"
  have "fst (update_walk n ((k0 # ks) @ [k]) v N) = with_content n1 (CBranch (put_child b1 k0 ?c' False))"
    by (simp add: snoc update_walk_Cons_Cons 1 2 split: prod.splits)
  then have "content_at (fst (update_walk n ((k0 # ks) @ [k]) v N)) (k0 # ks) = content_at ?c' ks"
    by (simp add: content_at_Cons [where b = "put_child b1 k0 ?c' False"] AList.update_conv')
  with Cons.IH [of c N2] show ?case
    by simp
qed

lemma content_at_BranchD:
  "content_at root ks = CBranch b \<Longrightarrow> \<exists>m. Node_getNode root ks = Some m \<and> tvalue m = CBranch b"
  by (auto simp: content_at_def split: option.splits)

lemma update_walk_node:
  assumes "\<not> is_empty v"
  shows "\<exists>c N0. Node_getNode (fst (update_walk n ks v N)) ks = Some (fst (Node_update c v N0))"
proof (cases ks rule: rev_cases)
  case Nil
  then show ?thesis
    by (auto simp: update_walk_Nil)
next
  case (snoc ks' k)
  from update_walk_snoc [of k n ks' v N] obtain b N0 c0 where
    c0: "map_of (nodes b) k = Some c0" and
    at: "content_at (fst (update_walk n (ks' @ [k]) v N)) ks' = CBranch (fst (Node_update_child b k v N0))"
    by blast
  from content_at_BranchD [OF at] obtain m where
    m: "Node_getNode (fst (update_walk n (ks' @ [k]) v N)) ks' = Some m"
      "tvalue m = CBranch (fst (Node_update_child b k v N0))"
    by blast
  have "map_of (nodes (fst (Node_update_child b k v N0))) k = Some (fst (Node_update c0 v N0))"
    using assms c0 by (simp add: Node_update_child_def child_update_def AList.update_conv' split: prod.splits)
  then have "Node_getNode (fst (update_walk n (ks' @ [k]) v N)) (ks' @ [k]) = Some (fst (Node_update c0 v N0))"
    by (simp add: Node_getNode_append m)
  then show ?thesis
    unfolding snoc by blast
qed

lemma Branch_removeKey_eq:
  "Branch_removeKey b k N = clear_child (with_keys b (removeAll k (tvalue (keys b)))) k
      (if k \<in> set (tvalue (keys b)) then N \<union> subscribers (keys b) else N)"
  by (simp add: Branch_removeKey_def set_keys_eq)

lemma clear_child_slot: "map_of (nodes (fst (clear_child b k N))) k = cleared_slot b k"
  by (simp add: clear_child_eq cleared_slot_def AList.update_conv' AList.delete_conv' split: option.splits)

lemma cleared_slot_with_keys [simp]: "cleared_slot (with_keys b ks) k = cleared_slot b k"
  by (simp add: cleared_slot_def)

lemma Branch_removeKey_slot:
  "map_of (nodes (fst (Branch_removeKey b k N))) k = cleared_slot b k"
  "k \<notin> set (tvalue (keys (fst (Branch_removeKey b k N))))"
  by (simp_all add: Branch_removeKey_eq clear_child_slot)

lemma read_absent_child:
  assumes "Node_getNode root ks = Some m" "tvalue m = CBranch b"
    and "case map_of (nodes b) k of None \<Rightarrow> True | Some c \<Rightarrow> tvalue c = CUndefined"
  shows "State_read root (ks @ [k]) = Inr VUndefined"
  using assms
  by (auto simp: State_read_def Node_getNode_append extractValue_simps(1) split: option.splits)

lemma update_walk_empty:
  assumes "is_empty v"
  shows "State_read (fst (update_walk n ks v N)) ks = Inr VUndefined"
    and "ks = ks' @ [k] \<Longrightarrow> k \<notin> set (State_readKeys (fst (update_walk n ks v N)) ks')"
proof -
  show "State_read (fst (update_walk n ks v N)) ks = Inr VUndefined"
  proof (cases ks rule: rev_cases)
    case Nil
    then show ?thesis
      using assms by (simp add: update_walk_Nil Node_update_empty State_read_def cleared_def extractValue_simps(1))
  next
    case (snoc ks0 k0)
    from update_walk_snoc [of k0 n ks0 v N] obtain b N0 c0 where
      at: "content_at (fst (update_walk n (ks0 @ [k0]) v N)) ks0 = CBranch (fst (Node_update_child b k0 v N0))"
      by blast
    from content_at_BranchD [OF at] obtain m where
      m: "Node_getNode (fst (update_walk n (ks0 @ [k0]) v N)) ks0 = Some m"
        "tvalue m = CBranch (fst (Node_update_child b k0 v N0))"
      by blast
    have "Node_update_child b k0 v N0 = Branch_removeKey b k0 N0"
      using assms by (simp add: Node_update_child_def child_update_def)
    then have "case map_of (nodes (fst (Node_update_child b k0 v N0))) k0 of
        None \<Rightarrow> True | Some c \<Rightarrow> tvalue c = CUndefined"
      by (auto simp: Branch_removeKey_slot split: option.splits dest: cleared_slot_content)
    with m show ?thesis
      unfolding snoc by (rule read_absent_child)
  qed
  show "k \<notin> set (State_readKeys (fst (update_walk n ks v N)) ks')" if "ks = ks' @ [k]"
  proof -
    from update_walk_snoc [of k n ks' v N] obtain b N0 c0 where
      at: "content_at (fst (update_walk n (ks' @ [k]) v N)) ks' = CBranch (fst (Node_update_child b k v N0))"
      by blast
    have "Node_update_child b k v N0 = Branch_removeKey b k N0"
      using assms by (simp add: Node_update_child_def child_update_def)
    then show ?thesis
      using at by (simp add: that State_readKeys_def Branch_removeKey_slot)
  qed
qed

lemma Node_update_empty_entry:
  assumes "wf_val v" "e \<in> set (entries v)" "is_empty (snd e)"
  shows "\<exists>b. tvalue (fst (Node_update n v N)) = CBranch b \<and> fst e \<notin> set (tvalue (keys b)) \<and>
    (case map_of (nodes b) (fst e) of None \<Rightarrow> True | Some c \<Rightarrow> tvalue c = CUndefined)"
proof -
  from assms(2) have object: "\<not> is_empty v" "typeof_object v"
    by (cases v; simp)+
  then obtain n1 b0 N1 b3 N3 where
    3: "Node_update n v N =
         (with_content n1 (CBranch (fst (update_children Node_update (entries v) (b3, N3)))),
          snd (update_children Node_update (entries v) (b3, N3)))"
    by (rule Node_update_object_result)
  have "distinct (map fst (entries v))"
    using assms(1) by (rule wf_val_entries)
  from update_children_empty_entry [OF this assms(2,3), of Node_update "(b3, N3)"]
  show ?thesis
    by (simp add: 3)
qed

subsection \<open>Null and undefined\<close>

lemma State_update_valid:
  "validateStateInput v = Inr u \<Longrightarrow> State_update root ks v N = (None, update_walk root ks v N)"
  by (simp add: State_update_def update_walk_def split: prod.splits)

lemma validateStateInput_empty: "is_empty v \<Longrightarrow> validateStateInput v = Inr ()"
  by (subst validateStateInput.simps) simp

lemma child_update_empty: "is_empty v \<Longrightarrow> child_update upd b k v = Branch_removeKey b k"
  by (rule ext) (simp add: child_update_def)

lemma update_walk_empty_eq:
  "is_empty v \<Longrightarrow> is_empty v' \<Longrightarrow> Node_update_at n ks v N = Node_update_at n ks v' N"
proof (induction n ks v N rule: Node_update_at.induct)
  case (1 n v N)
  then show ?case by (simp add: Node_update_empty)
next
  case (2 n k v N)
  then show ?case by (simp add: Node_update_child_def child_update_empty)
next
  case (3 n k v va vb N)
  then show ?case
    by (simp split: content.splits option.splits)
qed

text \<open>
  C10. For every tree and path, \<^verbatim>\<open>update(null)\<close> returns what \<^verbatim>\<open>update(undefined)\<close>
  returns (tree, notified set and no error); afterwards \<^verbatim>\<open>read()\<close> at the path returns
  undefined and the last key of the path is not among the keys of its Branch. A null or
  undefined entry of an updated array or record is not stored either: its key is not among
  the keys at the path and \<^verbatim>\<open>read()\<close> at that key returns undefined.
\<close>

theorem C10_null_is_empty:
  "State_update root ks VNull N = State_update root ks VUndefined N \<and>
   fst (State_update root ks VNull N) = None \<and>
   State_read (fst (snd (State_update root ks VNull N))) ks = Inr VUndefined \<and>
   (ks = ks' @ [k] \<longrightarrow> k \<notin> set (State_readKeys (fst (snd (State_update root ks VNull N))) ks')) \<and>
   (validateStateInput v = Inr () \<and> wf_val v \<and> e \<in> set (entries v) \<and> is_empty (snd e) \<longrightarrow>
      State_read (fst (snd (State_update root ks v N))) (ks @ [fst e]) = Inr VUndefined \<and>
      fst e \<notin> set (State_readKeys (fst (snd (State_update root ks v N))) ks))"
proof (intro conjI impI)
  have null: "State_update root ks0 VNull N = (None, update_walk root ks0 VNull N)" for ks0
    by (rule State_update_valid [OF validateStateInput_empty]) simp
  have undef: "State_update root ks VUndefined N = (None, update_walk root ks VUndefined N)"
    by (rule State_update_valid [OF validateStateInput_empty]) simp
  have "update_walk root ks VNull N = update_walk root ks VUndefined N"
    unfolding update_walk_def by (simp add: update_walk_empty_eq [of VNull VUndefined] split: prod.splits)
  then show "State_update root ks VNull N = State_update root ks VUndefined N"
    by (simp add: null undef)
  show "fst (State_update root ks VNull N) = None"
    by (simp add: null)
  show "State_read (fst (snd (State_update root ks VNull N))) ks = Inr VUndefined"
    by (simp add: null update_walk_empty(1))
  show "k \<notin> set (State_readKeys (fst (snd (State_update root ks VNull N))) ks')" if "ks = ks' @ [k]"
    using update_walk_empty(2) [of VNull ks ks' k root N] that by (simp add: null)
next
  assume a: "validateStateInput v = Inr () \<and> wf_val v \<and> e \<in> set (entries v) \<and> is_empty (snd e)"
  then have ne: "\<not> is_empty v"
    by (cases v) auto
  from a have st: "State_update root ks v N = (None, update_walk root ks v N)"
    by (intro State_update_valid) simp
  from update_walk_node [OF ne, of root ks N] obtain c N0 where
    m: "Node_getNode (fst (update_walk root ks v N)) ks = Some (fst (Node_update c v N0))"
    by blast
  from a Node_update_empty_entry [of v e c N0] obtain b where
    b: "tvalue (fst (Node_update c v N0)) = CBranch b" "fst e \<notin> set (tvalue (keys b))"
      "case map_of (nodes b) (fst e) of None \<Rightarrow> True | Some c \<Rightarrow> tvalue c = CUndefined"
    by blast
  show "State_read (fst (snd (State_update root ks v N))) (ks @ [fst e]) = Inr VUndefined"
    unfolding st using m b(1,3) by (simp add: read_absent_child)
  show "fst e \<notin> set (State_readKeys (fst (snd (State_update root ks v N))) ks)"
    unfolding st using m b(1,2) by (simp add: State_readKeys_def content_at_def)
qed

theorem C10_null_is_empty_witness:
  "State_update tree_ab [''a''] VNull {} = State_update tree_ab [''a''] VUndefined {} \<and>
   State_read (fst (snd (State_update tree_ab [''a''] VNull {}))) [''a''] = Inr VUndefined \<and>
   ''a'' \<notin> set (State_readKeys (fst (snd (State_update tree_ab [''a''] VNull {}))) []) \<and>
   validateStateInput (VObj [(''x'', VNull), (''y'', VAtom (ABool True))]) = Inr () \<and>
   State_read (fst (snd (State_update tree_ab [''a''] (VObj [(''x'', VNull), (''y'', VAtom (ABool True))]) {})))
      [''a'', ''x''] = Inr VUndefined \<and>
   ''x'' \<notin> set (State_readKeys
      (fst (snd (State_update tree_ab [''a''] (VObj [(''x'', VNull), (''y'', VAtom (ABool True))]) {}))) [''a''])"
proof -
  have v: "validateStateInput (VObj [(''x'', VNull), (''y'', VAtom (ABool True))]) = Inr ()"
    by code_simp
  from C10_null_is_empty [of tree_ab "[''a'']" "{}" "[]" "''a''"
      "VObj [(''x'', VNull), (''y'', VAtom (ABool True))]" "(''x'', VNull)"] v
  show ?thesis by (elim conjE impE; simp)
qed

subsection \<open>The notified set only grows\<close>







subsection \<open>The slot of a dropped key\<close>





subsection \<open>Who can be marked dirty\<close>

lemma all_subs_simps:
  "tvalue n = CUndefined \<Longrightarrow> all_subs n = subscribers n"
  "tvalue n = CTopic t \<Longrightarrow> all_subs n = subscribers n \<union> subscribers t"
  "tvalue n = CBranch b \<Longrightarrow> all_subs n = subscribers n \<union> subscribers (keys b) \<union> children_subs {} b"
  by (simp_all add: all_subs.simps [of n] children_subs_def Un_assoc)

lemma all_subs_cleared [simp]: "all_subs (cleared c) = subscribers c"
  by (simp add: all_subs_simps(1) cleared_def)

lemma all_subs_createChild [simp]: "all_subs (createChild k) = {}"
  by (simp add: all_subs_simps(1) createChild_def)

lemma subscribers_subset_all_subs: "subscribers n \<subseteq> all_subs n"
  by (subst all_subs.simps) simp

lemma children_subs_member:
  "p \<in> set (nodes b) \<Longrightarrow> fst p \<notin> K \<Longrightarrow> all_subs (snd p) \<subseteq> children_subs K b"
  by (auto simp: children_subs_def)

lemma children_subs_slot:
  "k \<notin> K \<Longrightarrow> all_subs (slot b k) \<subseteq> children_subs K b"
  by (auto simp: slot_def split: option.splits dest!: map_of_SomeD intro: children_subs_member [THEN subsetD])

lemma set_alist_update: "set (AList.update k v al) \<subseteq> insert (k, v) (set al)"
  by (induction al) auto

lemma set_alist_delete: "set (AList.delete k al) \<subseteq> set al"
  by (induction al) auto

lemma children_subs_update:
  "children_subs K (with_nodes b (AList.update k c (nodes b))) \<subseteq> all_subs c \<union> children_subs K b"
  using set_alist_update [of k c "nodes b"] by (fastforce simp: children_subs_def)

lemma children_subs_delete:
  "children_subs K (with_nodes b (AList.delete k (nodes b))) \<subseteq> children_subs K b"
  using set_alist_delete [of k "nodes b"] by (fastforce simp: children_subs_def)

lemma children_subs_with_keys [simp]: "children_subs K (with_keys b ks) = children_subs K b"
  by (simp add: children_subs_def)

lemma children_subs_with_isArray [simp]: "children_subs K (with_isArray b a) = children_subs K b"
  by (simp add: children_subs_def)

lemma clear_child_footprint:
  assumes "k \<notin> K"
  shows "children_subs K (fst (clear_child b k N)) \<union> snd (clear_child b k N) \<subseteq> children_subs K b \<union> N"
proof (cases "map_of (nodes b) k")
  case None
  then show ?thesis by (simp add: clear_child_eq)
next
  case (Some c)
  then have "(k, c) \<in> set (nodes b)" by (rule map_of_SomeD)
  with assms have c: "all_subs c \<subseteq> children_subs K b"
    using children_subs_member [of "(k, c)" b K] by simp
  then have "subscribers c \<subseteq> children_subs K b"
    using subscribers_subset_all_subs by blast
  then show ?thesis
    using children_subs_update [of K b k "cleared c"] children_subs_delete [of K b k]
    by (auto simp: clear_child_eq Some)
qed

lemma clear_dropped_footprint:
  assumes "K \<subseteq> set nk"
  shows "children_subs K (fst (clear_dropped nk ks bN)) \<union> snd (clear_dropped nk ks bN)
    \<subseteq> children_subs K (fst bN) \<union> snd bN"
proof (induction ks arbitrary: bN)
  case (Cons a ks)
  show ?case
  proof (cases "a \<in> set nk")
    case True
    then show ?thesis
      using Cons.IH [of bN] by simp
  next
    case False
    with assms have "a \<notin> K" by auto
    from clear_child_footprint [OF this, of "fst bN" "snd bN"]
      Cons.IH [of "clear_child (fst bN) a (snd bN)"]
    have "children_subs K (fst (clear_dropped nk ks (clear_child (fst bN) a (snd bN)))) \<union>
        snd (clear_dropped nk ks (clear_child (fst bN) a (snd bN)))
      \<subseteq> children_subs K (fst bN) \<union> snd bN"
      by (rule order_trans [rotated])
    then show ?thesis
      using False by simp
  qed
qed simp

lemma prune_footprint:
  assumes "K \<subseteq> set nk"
  shows "children_subs K (fst (prune nk bN)) \<union> snd (prune nk bN)
    \<subseteq> children_subs K (fst bN) \<union> snd bN \<union>
        (if set (tvalue (keys (fst bN))) \<subseteq> set nk then {} else subscribers (keys (fst bN)))"
proof (cases "set (tvalue (keys (fst bN))) \<subseteq> set nk")
  case True
  then show ?thesis by (simp add: prune_noop)
next
  case False
  obtain b2 N2 where 1: "clear_dropped nk (tvalue (keys (fst bN))) bN = (b2, N2)"
    by fastforce
  from clear_dropped_footprint [OF assms, of "tvalue (keys (fst bN))" bN]
  have "children_subs K b2 \<union> N2 \<subseteq> children_subs K (fst bN) \<union> snd bN"
    by (simp add: 1)
  moreover have "keys b2 = keys (fst bN)"
    using clear_dropped_keys(1) [of nk "tvalue (keys (fst bN))" bN] by (simp add: 1)
  ultimately show ?thesis
    using False by (auto simp: prune_def 1 set_keys_eq)
qed

lemma child_step_footprint:
  assumes fp: "\<And>c N. all_subs (fst (upd c (snd e) N)) \<union> snd (upd c (snd e) N) \<subseteq> all_subs c \<union> N"
    and "fst e \<notin> K"
  shows "children_subs K (fst (child_step upd e (b, N))) \<union> snd (child_step upd e (b, N))
    \<subseteq> children_subs K b \<union> N \<union>
        (if fst e \<in> set (tvalue (keys b)) \<and> \<not> is_empty (snd e) then {} else subscribers (keys b))"
proof (cases "is_empty (snd e)")
  case True
  let ?c = "slot b (fst e)"
  have c: "subscribers ?c \<subseteq> children_subs K b"
    using children_subs_slot [OF assms(2), of b] subscribers_subset_all_subs by blast
  have 1: "children_subs K (fst (child_step upd e (b, N))) \<subseteq> children_subs K b"
    using children_subs_update [of K b "fst e" "cleared ?c"] children_subs_delete [of K b "fst e"] c
    by (simp add: child_step_empty [OF True]) blast
  have 2: "snd (child_step upd e (b, N)) \<subseteq> children_subs K b \<union> N \<union> subscribers (keys b)"
    using c by (simp add: child_step_empty [OF True]) blast
  from 1 2 True show ?thesis
    by simp blast
next
  case False
  let ?N0 = "if fst e \<in> set (tvalue (keys b)) then N else N \<union> subscribers (keys b)"
  let ?r = "upd (slot b (fst e)) (snd e) ?N0"
  have "all_subs (fst ?r) \<union> snd ?r \<subseteq> all_subs (slot b (fst e)) \<union> ?N0"
    by (rule fp)
  also have "\<dots> \<subseteq> children_subs K b \<union> ?N0"
    using children_subs_slot [OF assms(2), of b] by blast
  finally have r: "all_subs (fst ?r) \<union> snd ?r \<subseteq> children_subs K b \<union> ?N0" .
  have 1: "children_subs K (fst (child_step upd e (b, N))) \<subseteq> all_subs (fst ?r) \<union> children_subs K b"
    using children_subs_update [of K b "fst e" "fst ?r"]
    by (simp add: child_step_nonempty [OF False] case_prod_beta)
  have 2: "snd (child_step upd e (b, N)) = snd ?r"
    by (simp add: child_step_nonempty [OF False] case_prod_beta)
  have 3: "children_subs K b \<union> ?N0 \<subseteq> children_subs K b \<union> N \<union>
        (if fst e \<in> set (tvalue (keys b)) \<and> \<not> is_empty (snd e) then {} else subscribers (keys b))"
    using False by auto
  from 1 r 3 show ?thesis
    unfolding 2 by blast
qed

lemma child_step_keys_topic:
  "subscribers (keys (fst (child_step upd e (b, N)))) = subscribers (keys b)"
  "detach (keys (fst (child_step upd e (b, N)))) = detach (keys b)"
  "isArray (fst (child_step upd e (b, N))) = isArray b"
  "\<not> is_empty (snd e) \<Longrightarrow> fst e \<in> set (tvalue (keys b)) \<Longrightarrow>
     tvalue (keys (fst (child_step upd e (b, N)))) = tvalue (keys b)"
  by (cases "is_empty (snd e)"; simp add: child_step_empty child_step_nonempty case_prod_beta)+

lemma update_children_keys_topic:
  "subscribers (keys (fst (update_children upd es bN))) = subscribers (keys (fst bN)) \<and>
   detach (keys (fst (update_children upd es bN))) = detach (keys (fst bN)) \<and>
   isArray (fst (update_children upd es bN)) = isArray (fst bN)"
proof (induction es arbitrary: bN)
  case (Cons e es)
  obtain b N where bN: "bN = (b, N)" by (cases bN)
  show ?case
    unfolding update_children_Cons using Cons.IH [of "child_step upd e bN"]
    by (simp add: bN child_step_keys_topic)
qed simp

lemma update_children_footprint:
  assumes "\<And>e c N. e \<in> set es \<Longrightarrow>
      all_subs (fst (upd c (snd e) N)) \<union> snd (upd c (snd e) N) \<subseteq> all_subs c \<union> N"
    and "\<And>e. e \<in> set es \<Longrightarrow> fst e \<notin> K"
  shows "children_subs K (fst (update_children upd es (b, N))) \<union> snd (update_children upd es (b, N))
    \<subseteq> children_subs K b \<union> N \<union>
        (if \<forall>e \<in> set es. fst e \<in> set (tvalue (keys b)) \<and> \<not> is_empty (snd e) then {}
         else subscribers (keys b))"
  using assms
proof (induction es arbitrary: b N)
  case Nil
  show ?case by simp
next
  case (Cons e es)
  obtain b1 N1 where 1: "child_step upd e (b, N) = (b1, N1)"
    by fastforce
  have step: "children_subs K b1 \<union> N1 \<subseteq> children_subs K b \<union> N \<union>
        (if fst e \<in> set (tvalue (keys b)) \<and> \<not> is_empty (snd e) then {} else subscribers (keys b))"
    using child_step_footprint [of upd e K b N] Cons.prems by (simp add: 1)
  have ks: "subscribers (keys b1) = subscribers (keys b)"
    using child_step_keys_topic(1) [of upd e b N] by (simp add: 1)
  have IH: "children_subs K (fst (update_children upd es (b1, N1))) \<union> snd (update_children upd es (b1, N1))
    \<subseteq> children_subs K b1 \<union> N1 \<union>
        (if \<forall>e \<in> set es. fst e \<in> set (tvalue (keys b1)) \<and> \<not> is_empty (snd e) then {}
         else subscribers (keys b1))"
    using Cons.prems by (intro Cons.IH) simp_all
  show ?case
  proof (cases "\<forall>e' \<in> set (e # es). fst e' \<in> set (tvalue (keys b)) \<and> \<not> is_empty (snd e')")
    case True
    then have "tvalue (keys b1) = tvalue (keys b)"
      using child_step_keys_topic(4) [of e b upd N] by (simp add: 1)
    with True have "\<forall>e \<in> set es. fst e \<in> set (tvalue (keys b1)) \<and> \<not> is_empty (snd e)"
      by simp
    with IH step True show ?thesis
      unfolding update_children_Cons 1 by auto
  next
    case False
    have "children_subs K (fst (update_children upd es (b1, N1))) \<union> snd (update_children upd es (b1, N1))
      \<subseteq> children_subs K b \<union> N \<union> subscribers (keys b)"
      using IH step ks by (auto split: if_splits)
    then show ?thesis
      unfolding update_children_Cons 1 if_not_P [OF False] .
  qed
qed

lemma Node_update_atom_footprint:
  "all_subs (fst (Node_update n (VAtom a) N)) \<union> snd (Node_update n (VAtom a) N) \<subseteq> all_subs n \<union> N"
proof (cases "\<exists>t. tvalue n = CTopic t")
  case True
  then obtain t where t: "tvalue n = CTopic t" by blast
  have 1: "Node_update n (VAtom a) N =
      (with_content n (CTopic (Topic (Some a) (subscribers t) (detach t))),
       if seq_leaf (tvalue t) (Some a) then N else N \<union> subscribers t)"
    by (simp add: Node_update_atom Node_getOrCreateTopic_eq t)
  have 2: "all_subs (with_content n (CTopic (Topic (Some a) (subscribers t) (detach t)))) =
      subscribers n \<union> subscribers t"
    by (simp add: all_subs_simps(2) [where t = "Topic (Some a) (subscribers t) (detach t)"])
  have 3: "all_subs n = subscribers n \<union> subscribers t"
    by (rule all_subs_simps(2) [OF t])
  show ?thesis
    unfolding 1 fst_conv snd_conv 2 3 by auto
next
  case False
  then have 1: "Node_update n (VAtom a) N =
      (with_content n (CTopic (Topic (Some a) {} False)), N \<union> subscribers n)"
    by (cases "tvalue n") (simp_all add: Node_update_atom Node_getOrCreateTopic_eq new_Topic_def)
  have 2: "all_subs (with_content n (CTopic (Topic (Some a) {} False))) = subscribers n"
    by (simp add: all_subs_simps(2) [where t = "Topic (Some a) {} False"])
  show ?thesis
    unfolding 1 fst_conv snd_conv 2 using subscribers_subset_all_subs [of n] by auto
qed

lemma Node_getOrCreateBranch_footprint:
  assumes "Node_getOrCreateBranch n N = (n1, b0, N1)"
  shows "subscribers n1 = subscribers n"
    and "subscribers n \<union> subscribers (keys b0) \<union> children_subs {} b0 \<union> N1 \<subseteq> all_subs n \<union> N"
proof -
  show "subscribers n1 = subscribers n"
    using assms by (auto simp: Node_getOrCreateBranch_eq split: content.splits)
  show "subscribers n \<union> subscribers (keys b0) \<union> children_subs {} b0 \<union> N1 \<subseteq> all_subs n \<union> N"
  proof (cases "\<exists>b. tvalue n = CBranch b")
    case True
    then obtain b where b: "tvalue n = CBranch b" by blast
    with assms have "b0 = b" "N1 = N"
      by (simp_all add: Node_getOrCreateBranch_eq)
    then show ?thesis
      by (simp add: all_subs_simps(3) [OF b])
  next
    case False
    with assms have "b0 = new_Branch" "N1 = N \<union> subscribers n"
      by (cases "tvalue n"; simp add: Node_getOrCreateBranch_eq)+
    then show ?thesis
      using subscribers_subset_all_subs [of n] by (auto simp: children_subs_def)
  qed
qed

lemma Node_update_footprint:
  "all_subs (fst (Node_update n v N)) \<union> snd (Node_update n v N) \<subseteq> all_subs n \<union> N"
proof (induction v arbitrary: n N rule: val_entries_induct)
  case (step v)
  show ?case
  proof (cases v rule: val_cases3)
    case empty
    then show ?thesis
      using subscribers_subset_all_subs [of n] by (auto simp: Node_update_empty)
  next
    case (atom a)
    then show ?thesis
      by (simp only: Node_update_atom_footprint)
  next
    case object
    let ?es = "entries v"
    from object obtain n1 b0 N1 b3 N3 where
      1: "Node_getOrCreateBranch n N = (n1, b0, N1)" and
      2: "prune (map fst ?es) (with_isArray b0 (isArray_val v), N1) = (b3, N3)" and
      3: "Node_update n v N =
           (with_content n1 (CBranch (fst (update_children Node_update ?es (b3, N3)))),
            snd (update_children Node_update ?es (b3, N3)))"
      by (rule Node_update_object_result)
    let ?r = "update_children Node_update ?es (b3, N3)"
    note gb = Node_getOrCreateBranch_footprint [OF 1]
    have pr: "children_subs {} b3 \<union> N3 \<subseteq> children_subs {} b0 \<union> N1 \<union> subscribers (keys b0)"
      using prune_footprint [of "{}" "map fst ?es" "(with_isArray b0 (isArray_val v), N1)"]
      by (simp add: 2 split: if_splits) blast+
    have k3: "subscribers (keys b3) = subscribers (keys b0)"
      using prune_keys(2) [of "map fst ?es" "(with_isArray b0 (isArray_val v), N1)"] by (simp add: 2)
    have "children_subs {} (fst ?r) \<union> snd ?r \<subseteq> children_subs {} b3 \<union> N3 \<union>
        (if \<forall>e \<in> set ?es. fst e \<in> set (tvalue (keys b3)) \<and> \<not> is_empty (snd e) then {}
         else subscribers (keys b3))"
      by (rule update_children_footprint) (rule step.IH, assumption, simp)
    then have up: "children_subs {} (fst ?r) \<union> snd ?r \<subseteq> children_subs {} b3 \<union> N3 \<union> subscribers (keys b3)"
      by (rule order_trans) auto
    have k4: "subscribers (keys (fst ?r)) = subscribers (keys b3)"
      using update_children_keys_topic [of Node_update ?es "(b3, N3)"] by simp
    have all: "all_subs (with_content n1 (CBranch (fst ?r))) =
        subscribers n \<union> subscribers (keys b0) \<union> children_subs {} (fst ?r)"
      by (simp add: all_subs_simps(3) [where b = "fst ?r"] gb(1) k4 k3)
    show ?thesis
      unfolding 3 fst_conv snd_conv all using gb(2) pr up unfolding k3 by blast
  qed
qed





lemma node_subs_with_keys [simp]: "node_subs K (with_keys b ks) = node_subs K b"
  by (simp add: node_subs_def)

lemma node_subs_with_isArray [simp]: "node_subs K (with_isArray b a) = node_subs K b"
  by (simp add: node_subs_def)






subsection \<open>Dropped children\<close>




lemma child_step_untouched:
  assumes "map_of (nodes b) (fst e) = Some c" "upd c (snd e) = Pair c" "\<not> is_empty (snd e)"
  shows "nodes (fst (child_step upd e (b, N))) = nodes b"
    and "snd (child_step upd e (b, N)) \<subseteq> N \<union> subscribers (keys b)"
  using assms
  by (simp_all add: child_step_nonempty slot_def AList.update_triv)

lemma children_subs_cong: "nodes b' = nodes b \<Longrightarrow> children_subs K b' = children_subs K b"
  by (simp add: children_subs_def)

lemma update_children_untouched:
  assumes "distinct (map fst es)" "(k, w) \<in> set es" "map_of (nodes b) k = Some c"
    and "upd c w = Pair c" "\<not> is_empty w"
    and fp: "\<And>e c N. e \<in> set es \<Longrightarrow>
      all_subs (fst (upd c (snd e) N)) \<union> snd (upd c (snd e) N) \<subseteq> all_subs c \<union> N"
  shows "map_of (nodes (fst (update_children upd es (b, N)))) k = Some c \<and>
    children_subs {k} (fst (update_children upd es (b, N))) \<union> snd (update_children upd es (b, N))
      \<subseteq> children_subs {k} b \<union> N \<union> subscribers (keys b)"
  using assms
proof (induction es arbitrary: b N)
  case Nil
  then show ?case by simp
next
  case (Cons e es)
  obtain b1 N1 where 1: "child_step upd e (b, N) = (b1, N1)"
    by fastforce
  have ks1: "subscribers (keys b1) = subscribers (keys b)"
    using child_step_keys_topic(1) [of upd e b N] by (simp add: 1)
  show ?case
  proof (cases "fst e = k")
    case True
    with Cons.prems(1,2) have e: "e = (k, w)"
      by (cases e) (auto simp: image_iff)
    from Cons.prems(1) True have notin: "k \<notin> fst ` set es"
      by auto
    have n1: "nodes b1 = nodes b" and N1: "N1 \<subseteq> N \<union> subscribers (keys b)"
      using child_step_untouched [of b e c upd N] Cons.prems(3,4,5) 1 by (simp_all add: e)
    have "children_subs {k} (fst (update_children upd es (b1, N1))) \<union> snd (update_children upd es (b1, N1))
      \<subseteq> children_subs {k} b1 \<union> N1 \<union>
        (if \<forall>e \<in> set es. fst e \<in> set (tvalue (keys b1)) \<and> \<not> is_empty (snd e) then {}
         else subscribers (keys b1))"
    proof (rule update_children_footprint)
      show "all_subs (fst (upd c (snd e') N)) \<union> snd (upd c (snd e') N) \<subseteq> all_subs c \<union> N"
        if "e' \<in> set es" for e' c N
        using Cons.prems(6) [of e'] that by simp
      show "fst e' \<notin> {k}" if "e' \<in> set es" for e'
        using notin that by auto
    qed
    then have "children_subs {k} (fst (update_children upd es (b1, N1))) \<union> snd (update_children upd es (b1, N1))
      \<subseteq> children_subs {k} b1 \<union> N1 \<union> subscribers (keys b1)"
      by (rule order_trans) auto
    moreover have "map_of (nodes (fst (update_children upd es (b1, N1)))) k = Some c"
      using update_children_other [OF notin, of upd "(b1, N1)"] Cons.prems(3) by (simp add: n1)
    ultimately show ?thesis
      unfolding update_children_Cons 1 using N1 ks1 children_subs_cong [OF n1, of "{k}"]
      by auto
  next
    case False
    with Cons.prems(2) have mem: "(k, w) \<in> set es"
      by auto
    have slot1: "map_of (nodes b1) k = Some c"
      using child_step_other [of k e upd b N] False Cons.prems(3) by (simp add: 1)
    have step: "children_subs {k} b1 \<union> N1 \<subseteq> children_subs {k} b \<union> N \<union> subscribers (keys b)"
    proof -
      have "children_subs {k} (fst (child_step upd e (b, N))) \<union> snd (child_step upd e (b, N))
        \<subseteq> children_subs {k} b \<union> N \<union>
          (if fst e \<in> set (tvalue (keys b)) \<and> \<not> is_empty (snd e) then {} else subscribers (keys b))"
        by (rule child_step_footprint) (use Cons.prems(6) [of e] False in auto)
      then show ?thesis
        unfolding 1 fst_conv snd_conv by (rule order_trans) auto
    qed
    have IH: "map_of (nodes (fst (update_children upd es (b1, N1)))) k = Some c \<and>
      children_subs {k} (fst (update_children upd es (b1, N1))) \<union> snd (update_children upd es (b1, N1))
        \<subseteq> children_subs {k} b1 \<union> N1 \<union> subscribers (keys b1)"
      using Cons.prems(1) mem slot1 Cons.prems(4,5,6) by (intro Cons.IH) simp_all
    show ?thesis
      unfolding update_children_Cons 1 using IH step ks1 by auto
  qed
qed

lemma unchanged_child:
  assumes "tvalue n = CBranch b" "map_of (nodes b) k = Some c" "wf_val v" "(k, w) \<in> set (entries v)"
    and "stores c w" "\<not> is_empty w" "no_empty_entries w" "no_NaN w"
  shows "(\<exists>b'. tvalue (fst (Node_update n v N)) = CBranch b' \<and> map_of (nodes b') k = Some c) \<and>
    snd (Node_update n v N) \<subseteq> N \<union> subscribers (keys b) \<union> children_subs {k} b"
proof -
  let ?es = "entries v"
  from assms(4) have object: "\<not> is_empty v" "typeof_object v"
    by (cases v; simp)+
  then obtain n1 b0 N1 b3 N3 where
    1: "Node_getOrCreateBranch n N = (n1, b0, N1)" and
    2: "prune (map fst ?es) (with_isArray b0 (isArray_val v), N1) = (b3, N3)" and
    3: "Node_update n v N =
         (with_content n1 (CBranch (fst (update_children Node_update ?es (b3, N3)))),
          snd (update_children Node_update ?es (b3, N3)))"
    by (rule Node_update_object_result)
  from 1 assms(1) have b0: "b0 = b" "N1 = N"
    by (simp_all add: Node_getOrCreateBranch_eq)
  have kin: "k \<in> set (map fst ?es)"
    using assms(4) by (force simp: image_iff)
  have slot3: "map_of (nodes b3) k = Some c"
    using prune_kept [OF kin, of "(with_isArray b (isArray_val v), N)"] assms(2) by (simp add: 2 [unfolded b0])
  have "children_subs {k} (fst (prune (map fst ?es) (with_isArray b (isArray_val v), N))) \<union>
      snd (prune (map fst ?es) (with_isArray b (isArray_val v), N))
    \<subseteq> children_subs {k} (fst (with_isArray b (isArray_val v), N)) \<union> snd (with_isArray b (isArray_val v), N) \<union>
        (if set (tvalue (keys (fst (with_isArray b (isArray_val v), N)))) \<subseteq> set (map fst ?es) then {}
         else subscribers (keys (fst (with_isArray b (isArray_val v), N))))"
    by (rule prune_footprint) (use kin in simp)
  then have pr: "children_subs {k} b3 \<union> N3 \<subseteq> children_subs {k} b \<union> N \<union> subscribers (keys b)"
    unfolding 2 [unfolded b0] fst_conv snd_conv by (rule order_trans) auto
  have k3: "subscribers (keys b3) = subscribers (keys b)"
    using prune_keys(2) [of "map fst ?es" "(with_isArray b (isArray_val v), N)"] by (simp add: 2 [unfolded b0])
  have noop: "Node_update c w = Pair c"
    by (rule ext) (rule stores_noop [OF assms(5,7,8)])
  let ?r = "update_children Node_update ?es (b3, N3)"
  have "map_of (nodes (fst ?r)) k = Some c \<and>
    children_subs {k} (fst ?r) \<union> snd ?r \<subseteq> children_subs {k} b3 \<union> N3 \<union> subscribers (keys b3)"
    using wf_val_entries(1) [OF assms(3)] assms(4) slot3 noop assms(6)
    by (rule update_children_untouched) (rule Node_update_footprint)
  with pr k3 show ?thesis
    unfolding 3 by auto
qed

subsection \<open>Locality\<close>

lemma createState_axyb:
  "createState (value_axyb (ANum (Num 2))) = (None, tree_axyb_subs {} {} {} {} {} {} {} {} {} {} (ANum (Num 2)), {})"
  by code_simp

lemma Node_update_leaf_eval:
  "Node_update (Topic (CTopic (Topic (Some a) L False)) S d) (VAtom a') N =
     (Topic (CTopic (Topic (Some a') L False)) S d, if seq_leaf (Some a) (Some a') then N else N \<union> L)"
  by (simp add: Node_update_atom Node_getOrCreateTopic_eq with_content_def)

lemma Node_update_branch_eval:
  assumes "\<not> is_empty v" "typeof_object v" "isArray_val v = ia" "set ks \<subseteq> fst ` set (entries v)"
  shows "Node_update (Topic (CBranch (Branch ia (Topic ks KS False) ns)) S d) v N =
    (case update_children Node_update (entries v) (Branch ia (Topic ks KS False) ns, N) of
       (b4, N4) \<Rightarrow> (Topic (CBranch b4) S d, N4))"
proof -
  have "prune (map fst (entries v)) (Branch ia (Topic ks KS False) ns, N) = (Branch ia (Topic ks KS False) ns, N)"
    by (rule prune_noop) (use assms(4) in simp)
  then show ?thesis
    using assms(3) by (simp add: Node_update_object [OF assms(1,2)] Node_getOrCreateBranch_eq
        with_isArray_def with_content_def)
qed

lemma child_step_eval:
  assumes "\<not> is_empty x" "map_of ns k = Some c" "k \<in> set ks" "Node_update c x N = (c', N')"
  shows "child_step Node_update (k, x) (Branch ia (Topic ks KS False) ns, N) =
    (Branch ia (Topic ks KS False) (AList.update k c' ns), N')"
  using assms by (simp add: child_step_nonempty slot_def with_keys_def with_nodes_def)

lemma update_axyb:
  "State_update (tree_axyb_subs R RK A AK X XL Y YL B BL (ANum (Num 2))) [] (value_axyb (ANum (Num 9))) {} =
     (None, tree_axyb_subs R RK A AK X XL Y YL B BL (ANum (Num 9)), YL)"
proof -
  have v: "validateStateInput (value_axyb (ANum (Num 9))) = Inr ()"
    by code_simp
  let ?x = "Topic (CTopic (Topic (Some (ANum (Num 1))) XL False)) X True"
  let ?y = "\<lambda>n. Topic (CTopic (Topic (Some (ANum (Num n))) YL False)) Y True"
  let ?b = "Topic (CTopic (Topic (Some (ANum (Num 3))) BL False)) B True"
  let ?a = "\<lambda>n. Topic (CBranch (Branch False (Topic [''x'', ''y''] AK False) [(''x'', ?x), (''y'', ?y n)])) A True"
  have x: "Node_update ?x (VAtom (ANum (Num 1))) N = (?x, N)" for N
    by (simp add: Node_update_leaf_eval)
  have y: "Node_update (?y 2) (VAtom (ANum (Num 9))) N = (?y 9, N \<union> YL)" for N
    by (simp add: Node_update_leaf_eval)
  have b: "Node_update ?b (VAtom (ANum (Num 3))) N = (?b, N)" for N
    by (simp add: Node_update_leaf_eval)
  have a: "Node_update (?a 2) (VObj [(''x'', VAtom (ANum (Num 1))), (''y'', VAtom (ANum (Num 9)))]) N = (?a 9, N \<union> YL)" for N
    by (subst Node_update_branch_eval)
       (simp_all add: update_children_Cons child_step_eval [OF _ _ _ x] child_step_eval [OF _ _ _ y]
          del: update_children.simps(2))
  have "Node_update (tree_axyb_subs R RK A AK X XL Y YL B BL (ANum (Num 2))) (value_axyb (ANum (Num 9))) {} =
     (tree_axyb_subs R RK A AK X XL Y YL B BL (ANum (Num 9)), YL)"
    unfolding tree_axyb_subs_def value_axyb_def
    by (subst Node_update_branch_eval)
       (simp_all add: update_children_Cons child_step_eval [OF _ _ _ a] child_step_eval [OF _ _ _ b]
          del: update_children.simps(2))
  then show ?thesis
    by (simp add: State_update_valid [OF v] update_walk_Nil)
qed

text \<open>
  C2, amended. On the tree of \<^verbatim>\<open>{a: {x: 1, y: 2}, b: 3}\<close>, whatever the subscribers of
  its Topics are, the update with \<^verbatim>\<open>{a: {x: 1, y: 9}, b: 3}\<close> changes the value at
  \<^verbatim>\<open>a.y\<close> alone and marks dirty exactly the subscribers of the leaf Topic at
  \<^verbatim>\<open>a.y\<close>; a tracked read \<^verbatim>\<open>use()\<close> of \<^verbatim>\<open>a\<close> has that Topic among its
  dependencies. More generally, when a child of a Branch stores the value that the new
  value has at its key, and this value is not empty and has no NaN and no null or undefined
  entry, a structural update leaves that child as it is, with its subscribers, and marks dirty
  only subscribers of the \<open>keys\<close> Topic of the Branch and of the other children.
\<close>

theorem C2_locality:
  "State_update (tree_axyb_subs R RK A AK X XL Y YL B BL (ANum (Num 2))) [] (value_axyb (ANum (Num 9))) {} =
     (None, tree_axyb_subs R RK A AK X XL Y YL B BL (ANum (Num 9)), YL) \<and>
   (TLeaf, [''a'', ''y'']) \<in>
     set (snd (snd (State_use (tree_axyb_subs R RK A AK X XL Y YL B BL (ANum (Num 2))) [''a'']))) \<and>
   (tvalue n = CBranch b \<and> map_of (nodes b) k = Some c \<and> wf_val v \<and> (k, w) \<in> set (entries v) \<and>
    stores c w \<and> \<not> is_empty w \<and> no_empty_entries w \<and> no_NaN w \<longrightarrow>
      (\<exists>b'. tvalue (fst (Node_update n v N)) = CBranch b' \<and> map_of (nodes b') k = Some c) \<and>
      snd (Node_update n v N) \<subseteq> N \<union> subscribers (keys b) \<union> children_subs {k} b)"
proof (intro conjI impI)
  show "State_update (tree_axyb_subs R RK A AK X XL Y YL B BL (ANum (Num 2))) [] (value_axyb (ANum (Num 9))) {} =
     (None, tree_axyb_subs R RK A AK X XL Y YL B BL (ANum (Num 9)), YL)"
    by (rule update_axyb)
  show "(TLeaf, [''a'', ''y'']) \<in>
     set (snd (snd (State_use (tree_axyb_subs R RK A AK X XL Y YL B BL (ANum (Num 2))) [''a''])))"
    by code_simp
next
  assume a: "tvalue n = CBranch b \<and> map_of (nodes b) k = Some c \<and> wf_val v \<and> (k, w) \<in> set (entries v) \<and>
    stores c w \<and> \<not> is_empty w \<and> no_empty_entries w \<and> no_NaN w"
  then have "(\<exists>b'. tvalue (fst (Node_update n v N)) = CBranch b' \<and> map_of (nodes b') k = Some c) \<and>
      snd (Node_update n v N) \<subseteq> N \<union> subscribers (keys b) \<union> children_subs {k} b"
    by (intro unchanged_child [where w = w]) simp_all
  then show "\<exists>b'. tvalue (fst (Node_update n v N)) = CBranch b' \<and> map_of (nodes b') k = Some c"
    and "snd (Node_update n v N) \<subseteq> N \<union> subscribers (keys b) \<union> children_subs {k} b"
    by simp_all
qed

theorem C2_locality_witness:
  "(let b = Branch False (Topic [''a'', ''b''] {1} False)
       [(''a'', Topic (CBranch (Branch False (Topic [''x''] {2} False)
           [(''x'', Topic (CTopic (Topic (Some (ANum (Num 1))) {3} False)) {4} True)])) {5} True),
        (''b'', Topic (CTopic (Topic (Some (ANum (Num 3))) {6} False)) {7} True)];
        c = Topic (CBranch (Branch False (Topic [''x''] {2} False)
           [(''x'', Topic (CTopic (Topic (Some (ANum (Num 1))) {3} False)) {4} True)])) {5} True;
        w = VObj [(''x'', VAtom (ANum (Num 1)))];
        v = VObj [(''a'', w), (''b'', VAtom (ANum (Num 4)))];
        n = Topic (CBranch b) {0} False
    in (tvalue n = CBranch b \<and> map_of (nodes b) ''a'' = Some c \<and> wf_val v \<and> (''a'', w) \<in> set (entries v) \<and>
        stores c w \<and> \<not> is_empty w \<and> no_empty_entries w \<and> no_NaN w) \<and>
       (\<exists>b'. tvalue (fst (Node_update n v {})) = CBranch b' \<and> map_of (nodes b') ''a'' = Some c) \<and>
       snd (Node_update n v {}) \<subseteq> {} \<union> subscribers (keys b) \<union> children_subs {''a''} b)"
proof -
  let ?c = "Topic (CBranch (Branch False (Topic [''x''] {2} False)
           [(''x'', Topic (CTopic (Topic (Some (ANum (Num 1))) {3} False)) {4} True)])) {5} True"
  let ?b = "Branch False (Topic [''a'', ''b''] {1} False)
       [(''a'', ?c), (''b'', Topic (CTopic (Topic (Some (ANum (Num 3))) {6} False)) {7} True)]"
  let ?w = "VObj [(''x'', VAtom (ANum (Num 1)))]"
  let ?v = "VObj [(''a'', ?w), (''b'', VAtom (ANum (Num 4)))]"
  let ?n = "Topic (CBranch ?b) {0} False"
  have st: "stores ?c ?w"
    by code_simp
  have h: "tvalue ?n = CBranch ?b \<and> map_of (nodes ?b) ''a'' = Some ?c \<and> wf_val ?v \<and> (''a'', ?w) \<in> set (entries ?v) \<and>
        stores ?c ?w \<and> \<not> is_empty ?w \<and> no_empty_entries ?w \<and> no_NaN ?w"
    using st by simp
  from C2_locality [of _ _ _ _ _ _ _ _ _ _ ?n ?b "''a''" ?c ?v ?w "{}"] h
  show ?thesis
    unfolding Let_def by blast
qed

text \<open>
  The general part of the claim as stated fails on the tree of \<^verbatim>\<open>{a: {z: null}}\<close> whose
  \<open>keys\<close> Topic at \<^verbatim>\<open>a\<close> has the subscriber 1: the update with the same value marks 1
  dirty, although the value at \<^verbatim>\<open>a\<close> is unchanged.
\<close>

theorem C2_locality_counterexample:
  "createState (VObj [(''a'', VObj [(''z'', VNull)])]) =
     (None,
      Topic (CBranch (Branch False (Topic [''a''] {} False)
        [(''a'', Topic (CBranch (Branch False (Topic [] {} False) [])) {} True)])) {} False, {}) \<and>
   snd (Node_update
          (Topic (CBranch (Branch False (Topic [''a''] {} False)
             [(''a'', Topic (CBranch (Branch False (Topic [] {1} False) [])) {} True)])) {} False)
          (VObj [(''a'', VObj [(''z'', VNull)])]) {}) = {1}"
  by code_simp

subsection \<open>Walking a path that exists\<close>








subsection \<open>Subscribing to the Topics of a tracked read\<close>









subsection \<open>When the \<open>keys\<close> Topic fires\<close>








subsection \<open>The size of an array\<close>




end
